theory Spec2Isabelle
  imports Main "HOL-Library.Monad_Syntax"
begin

section \<open>The Quoridor board: Tiles\<close>

text \<open>
  A coordinate is the tuple \<open>(x-coord, y-coord)\<close> of \<^verbatim>\<open>Quoridor.py\<close>: column first, row
  second. Python's integers are unbounded, so both components are \<open>int\<close>.

  The board creates its 81 \<^verbatim>\<open>Tile\<close> objects once, in \<^verbatim>\<open>Board.__init__\<close>, and never replaces
  them: the object in \<^verbatim>\<open>self._board[row][col]\<close> is the same object for the whole game. A
  reference to a Tile object (what \<^verbatim>\<open>_north\<close>, \<^verbatim>\<open>_south\<close>, \<^verbatim>\<open>_east\<close>, \<^verbatim>\<open>_west\<close> hold when they
  are not \<^verbatim>\<open>None\<close>) is therefore modelled by the grid slot \<open>(col, row)\<close> of the object it
  points to, and the grid \<^verbatim>\<open>self._board\<close> is the store of the objects: reading through a
  reference looks the slot up in the current grid, so a change made through one reference is
  seen through every other one, as with the aliased Python objects.
\<close>

type_synonym coord = "int \<times> int"

record Tile =
  north :: "coord option"
  south :: "coord option"
  east :: "coord option"
  west :: "coord option"
  has_pawn :: int
  board_coord :: "coord option"

definition Tile_init :: Tile where
  "Tile_init = \<lparr>north = None, south = None, east = None, west = None, has_pawn = 0,
     board_coord = None\<rparr>"

definition get_direction :: "Tile \<Rightarrow> coord \<Rightarrow> coord option" where
  "get_direction t movement =
     (if fst movement < 0 then west t
      else if fst movement > 0 then east t
      else if snd movement < 0 then north t
      else if snd movement > 0 then south t
      else None)"

definition get_valid_directions :: "Tile \<Rightarrow> coord list" where
  "get_valid_directions t =
     (case north t of None \<Rightarrow> [] | Some n \<Rightarrow> [n]) @
     (case south t of None \<Rightarrow> [] | Some s \<Rightarrow> [s]) @
     (case east t of None \<Rightarrow> [] | Some e \<Rightarrow> [e]) @
     (case west t of None \<Rightarrow> [] | Some w \<Rightarrow> [w])"

definition get_has_pawn :: "Tile \<Rightarrow> int" where
  "get_has_pawn t = has_pawn t"

definition get_board_coord :: "Tile \<Rightarrow> coord option" where
  "get_board_coord t = board_coord t"

definition close_direction :: "string \<Rightarrow> Tile \<Rightarrow> Tile" where
  "close_direction direction t =
     (if direction = ''north'' then t\<lparr>north := None\<rparr>
      else if direction = ''south'' then t\<lparr>south := None\<rparr>
      else if direction = ''west'' then t\<lparr>west := None\<rparr>
      else if direction = ''east'' then t\<lparr>east := None\<rparr>
      else t)"

definition open_direction :: "string \<Rightarrow> coord \<Rightarrow> Tile \<Rightarrow> Tile" where
  "open_direction direction tile t =
     (if direction = ''north'' then t\<lparr>north := Some tile\<rparr>
      else if direction = ''south'' then t\<lparr>south := Some tile\<rparr>
      else if direction = ''west'' then t\<lparr>west := Some tile\<rparr>
      else if direction = ''east'' then t\<lparr>east := Some tile\<rparr>
      else t)"

definition set_has_pawn :: "int \<Rightarrow> Tile \<Rightarrow> Tile" where
  "set_has_pawn pawn t = t\<lparr>has_pawn := pawn\<rparr>"

definition set_board_coord :: "coord \<Rightarrow> Tile \<Rightarrow> Tile" where
  "set_board_coord coords t = t\<lparr>board_coord := Some coords\<rparr>"

section \<open>The Board\<close>

text \<open>
  \<open>board b\<close> is \<^verbatim>\<open>self._board\<close>, a list of rows of Tiles. A function that raises a Python
  exception returns \<open>None\<close>; so does one that follows a reference to a slot the grid does not
  have (Python has no such reference: the invariants below exclude it).
\<close>

record Board =
  player_1 :: coord
  player_2 :: coord
  board :: "Tile list list"

text \<open>Python list indexing: a negative index counts from the end, anything else outside
  the list raises \<^verbatim>\<open>IndexError\<close>. The result is the position read.\<close>

definition py_slot :: "nat \<Rightarrow> int \<Rightarrow> int option" where
  "py_slot n i =
     (if 0 \<le> i \<and> i < int n then Some i
      else if - int n \<le> i \<and> i < 0 then Some (i + int n)
      else None)"

text \<open>\<^verbatim>\<open>self._board[pos[1]][pos[0]]\<close>: the reference to the Tile found there.\<close>

definition board_index :: "Board \<Rightarrow> coord \<Rightarrow> coord option" where
  "board_index b pos =
     do {
       r \<leftarrow> py_slot (length (board b)) (snd pos);
       c \<leftarrow> py_slot (length (board b ! nat r)) (fst pos);
       Some (c, r)
     }"

definition valid_ref :: "Board \<Rightarrow> coord \<Rightarrow> bool" where
  "valid_ref b ref =
     (0 \<le> snd ref \<and> snd ref < int (length (board b)) \<and>
      0 \<le> fst ref \<and> fst ref < int (length (board b ! nat (snd ref))))"

definition tile_at :: "Board \<Rightarrow> coord \<Rightarrow> Tile" where
  "tile_at b ref = board b ! nat (snd ref) ! nat (fst ref)"

definition deref :: "Board \<Rightarrow> coord \<Rightarrow> Tile option" where
  "deref b ref = (if valid_ref b ref then Some (tile_at b ref) else None)"

text \<open>A method call that mutates the Tile object behind a reference.\<close>

definition update_tile :: "Board \<Rightarrow> coord \<Rightarrow> (Tile \<Rightarrow> Tile) \<Rightarrow> Board" where
  "update_tile b ref f =
     b\<lparr>board := (board b)[nat (snd ref) :=
          (board b ! nat (snd ref))[nat (fst ref) := f (tile_at b ref)]]\<rparr>"

text \<open>\<^verbatim>\<open>Board.__init__\<close>: the grid of fresh Tiles with their coordinates, then the loop that
  opens every link that does not leave the board, then the two pawns.\<close>

definition open_links :: "Board \<Rightarrow> int \<Rightarrow> int \<Rightarrow> Board" where
  "open_links b tile_row tile_col =
     (let b1 = (if tile_col \<noteq> 0
                then update_tile b (tile_col, tile_row)
                       (open_direction ''west'' (tile_col - 1, tile_row))
                else b);
          b2 = (if tile_col \<noteq> 8
                then update_tile b1 (tile_col, tile_row)
                       (open_direction ''east'' (tile_col + 1, tile_row))
                else b1);
          b3 = (if tile_row \<noteq> 0
                then update_tile b2 (tile_col, tile_row)
                       (open_direction ''north'' (tile_col, tile_row - 1))
                else b2)
      in (if tile_row \<noteq> 8
          then update_tile b3 (tile_col, tile_row)
                 (open_direction ''south'' (tile_col, tile_row + 1))
          else b3))"

definition Board_init :: Board where
  "Board_init =
     (let b0 = \<lparr>player_1 = (4, 0), player_2 = (4, 8),
                board = map (\<lambda>row. map (\<lambda>col. set_board_coord (col, row) Tile_init) [0..8])
                          [0..8]\<rparr>;
          b1 = fold (\<lambda>tile_row b. fold (\<lambda>tile_col b'. open_links b' tile_row tile_col) [0..8] b)
                 [0..8] b0;
          b2 = update_tile b1 (4, 0) (set_has_pawn 1)
      in update_tile b2 (4, 8) (set_has_pawn 2))"

definition get_player_1 :: "Board \<Rightarrow> coord" where
  "get_player_1 b = player_1 b"

definition get_player_2 :: "Board \<Rightarrow> coord" where
  "get_player_2 b = player_2 b"

definition player_in_goal :: "Board \<Rightarrow> int \<Rightarrow> bool" where
  "player_in_goal b player =
     (if player = 1 \<and> snd (player_1 b) = 8 then True
      else if player = 2 \<and> snd (player_2 b) = 0 then True
      else False)"

subsection \<open>Pawn moves\<close>

definition can_jump_pawn :: "Board \<Rightarrow> Tile \<Rightarrow> int \<Rightarrow> int \<Rightarrow> bool option" where
  "can_jump_pawn b current_tile row_dir col_dir =
     (if (\<bar>row_dir\<bar> = 2 \<or> \<bar>col_dir\<bar> = 2) \<and> (\<bar>row_dir\<bar> = 0 \<or> \<bar>col_dir\<bar> = 0)
      then (case get_direction current_tile (col_dir, row_dir) of
              None \<Rightarrow> Some False
            | Some next_ref \<Rightarrow>
                do {
                  next_tile \<leftarrow> deref b next_ref;
                  (if get_has_pawn next_tile \<noteq> 0
                   then (if get_direction next_tile (col_dir, row_dir) \<noteq> None
                         then Some True else Some False)
                   else Some False)
                })
      else Some False)"

text \<open>\<^verbatim>\<open>_can_move_diagonally\<close>. \<open>diagonal_by_row\<close> is its \<^verbatim>\<open>elif\<close> branch (the enemy pawn
  is in an adjacent row) together with the final \<^verbatim>\<open>return False\<close>: it is reached when
  \<^verbatim>\<open>change_col\<close> is \<^verbatim>\<open>None\<close> or holds no pawn.\<close>

definition diagonal_by_row :: "Board \<Rightarrow> Tile \<Rightarrow> int \<Rightarrow> int \<Rightarrow> bool option" where
  "diagonal_by_row b current_tile row_dir col_dir =
     (case get_direction current_tile (0, row_dir) of
        None \<Rightarrow> Some False
      | Some change_row \<Rightarrow>
          do {
            change_row_tile \<leftarrow> deref b change_row;
            (if get_has_pawn change_row_tile \<noteq> 0
             then (if get_direction change_row_tile (0, row_dir) = None
                      \<and> get_direction change_row_tile (col_dir, 0) \<noteq> None
                   then Some True else Some False)
             else Some False)
          })"

definition can_move_diagonally :: "Board \<Rightarrow> Tile \<Rightarrow> int \<Rightarrow> int \<Rightarrow> bool option" where
  "can_move_diagonally b current_tile row_dir col_dir =
     (if \<bar>row_dir\<bar> = 1 \<and> \<bar>col_dir\<bar> = 1
      then (case get_direction current_tile (col_dir, 0) of
              None \<Rightarrow> diagonal_by_row b current_tile row_dir col_dir
            | Some change_col \<Rightarrow>
                do {
                  change_col_tile \<leftarrow> deref b change_col;
                  (if get_has_pawn change_col_tile \<noteq> 0
                   then (if get_direction change_col_tile (col_dir, 0) = None
                            \<and> get_direction change_col_tile (0, row_dir) \<noteq> None
                         then Some True else Some False)
                   else diagonal_by_row b current_tile row_dir col_dir)
                })
      else Some False)"

definition can_move_regularly :: "Tile \<Rightarrow> int \<Rightarrow> int \<Rightarrow> bool" where
  "can_move_regularly current_tile row_dir col_dir =
     (if (\<bar>row_dir\<bar> = 1 \<or> \<bar>col_dir\<bar> = 1) \<and> (\<bar>row_dir\<bar> = 0 \<or> \<bar>col_dir\<bar> = 0)
      then (if get_direction current_tile (col_dir, row_dir) \<noteq> None then True else False)
      else False)"

definition move_pawn :: "Board \<Rightarrow> int \<Rightarrow> coord \<Rightarrow> (bool \<times> Board) option" where
  "move_pawn b player new_pos =
     (if \<not> (0 \<le> fst new_pos \<and> fst new_pos \<le> 8) \<or> \<not> (0 \<le> snd new_pos \<and> snd new_pos \<le> 8)
      then Some (False, b)
      else
        do {
          new_ref \<leftarrow> board_index b new_pos;
          new_tile \<leftarrow> deref b new_ref;
          (if get_has_pawn new_tile \<noteq> 0 then Some (False, b)
           else
             do {
               let current_pos = (if player = 1 then player_1 b else player_2 b);
               current_ref \<leftarrow> board_index b current_pos;
               current_tile \<leftarrow> deref b current_ref;
               let row_dir = snd new_pos - snd current_pos;
               let col_dir = fst new_pos - fst current_pos;
               let moving_regularly = can_move_regularly current_tile row_dir col_dir;
               jumping_pawn \<leftarrow> can_jump_pawn b current_tile row_dir col_dir;
               moving_diagonally \<leftarrow> can_move_diagonally b current_tile row_dir col_dir;
               (if moving_regularly \<or> jumping_pawn \<or> moving_diagonally
                then
                  (let b1 = update_tile b current_ref (set_has_pawn 0);
                       b2 = update_tile b1 new_ref (set_has_pawn player)
                   in Some (True, if player = 1 then b2\<lparr>player_1 := new_pos\<rparr>
                                  else b2\<lparr>player_2 := new_pos\<rparr>))
                else Some (False, b))
             })
        })"

subsection \<open>The fair-play search\<close>

text \<open>
  \<^verbatim>\<open>paths_taken\<close> is a Python set that holds the coordinate tuple \<^verbatim>\<open>position\<close> and Tile
  objects. A tuple never equals a Tile object, and Tile objects (no \<^verbatim>\<open>__eq__\<close>) are equal only
  when they are the same object, so an element of the set is either a tuple or an object
  reference.
\<close>

datatype visited = Pos coord | Obj coord

fun visit_new :: "coord \<Rightarrow> coord list \<times> visited set \<Rightarrow> coord list \<times> visited set" where
  "visit_new new_path (paths, paths_taken) =
     (if Obj new_path \<notin> paths_taken
      then (paths @ [new_path], insert (Obj new_path) paths_taken)
      else (paths, paths_taken))"

definition link_targets :: "Board \<Rightarrow> visited set" where
  "link_targets b = Obj ` (\<Union>t \<in> set (concat (board b)). set (get_valid_directions t))"

lemma finite_link_targets: "finite (link_targets b)"
  by (simp add: link_targets_def)

lemma fold_visit_new_measure:
  "Obj ` set xs \<subseteq> U \<Longrightarrow> finite U \<Longrightarrow> fold visit_new xs (ps, T) = (ps', T') \<Longrightarrow>
   card (U - T') + length ps' = card (U - T) + length ps \<and> (\<exists>ys. ps' = ps @ ys)"
proof (induction xs arbitrary: ps T)
  case Nil
  then show ?case by simp
next
  case (Cons x xs)
  show ?case
  proof (cases "Obj x \<in> T")
    case True
    with Cons.prems have "fold visit_new xs (ps, T) = (ps', T')"
      by simp
    with Cons.IH[of ps T] Cons.prems show ?thesis by simp
  next
    case False
    with Cons.prems have f: "fold visit_new xs (ps @ [x], insert (Obj x) T) = (ps', T')"
      by simp
    from Cons.prems have xU: "Obj x \<in> U" by simp
    have "card (U - insert (Obj x) T) + 1 = card (U - T)"
    proof -
      have "U - T = insert (Obj x) (U - insert (Obj x) T)" using xU False by auto
      moreover have "Obj x \<notin> U - insert (Obj x) T" by simp
      moreover have "finite (U - insert (Obj x) T)" using Cons.prems by simp
      ultimately show ?thesis by (metis card_insert_disjoint Suc_eq_plus1)
    qed
    with Cons.IH[OF _ Cons.prems(2) f] Cons.prems(1) show ?thesis by auto
  qed
qed

lemma deref_in_board: "deref b p = Some t \<Longrightarrow> t \<in> set (concat (board b))"
  by (auto simp: deref_def valid_ref_def tile_at_def split: if_splits
      intro!: bexI[of _ "board b ! nat (snd p)"])

function search :: "Board \<Rightarrow> int \<Rightarrow> coord list \<Rightarrow> visited set \<Rightarrow> bool option" where
  "search b destination [] paths_taken = Some False"
| "search b destination (p # ps) paths_taken =
     (case deref b p of
        None \<Rightarrow> None
      | Some t \<Rightarrow>
          (case get_board_coord t of
             None \<Rightarrow> None
           | Some xy \<Rightarrow>
               if snd xy = destination then Some True
               else (case fold visit_new (get_valid_directions t) (p # ps, paths_taken) of
                       (paths', paths_taken') \<Rightarrow> search b destination (tl paths') paths_taken')))"
  by pat_completeness auto
termination
proof (relation "measure (\<lambda>(b, d, paths, T). card (link_targets b - T) + length paths)", goal_cases)
  case 1
  then show ?case by simp
next
  case (2 b destination p ps paths_taken t xy paths' T')
  have "Obj ` set (get_valid_directions t) \<subseteq> link_targets b"
    using deref_in_board[OF 2(1)] by (auto simp: link_targets_def)
  from fold_visit_new_measure[OF this finite_link_targets 2(4)[symmetric]]
  show ?case by auto
qed

definition fair_play :: "Board \<Rightarrow> int \<Rightarrow> bool option" where
  "fair_play b player =
     (let destination = (if player = 1 then 8 else 0);
          position = (if player = 1 then get_player_1 b else get_player_2 b)
      in do {
           tile_ref \<leftarrow> board_index b position;
           tile \<leftarrow> deref b tile_ref;
           let paths = get_valid_directions tile;
           let paths_taken = fold (\<lambda>path s. insert (Obj path) s) paths {Pos position};
           search b destination paths paths_taken
         })"

subsection \<open>Fence placement\<close>

text \<open>
  \<^verbatim>\<open>place_fence\<close> returns \<^verbatim>\<open>True\<close>, \<^verbatim>\<open>False\<close> or the string
  \<^verbatim>\<open>"breaks the fair play rule"\<close>. In \<^verbatim>\<open>not self._fair_play(1) or not self._fair_play(2)\<close> the
  second search runs only when the first one has returned \<^verbatim>\<open>True\<close>.
\<close>

datatype py_value = PyBool bool | PyStr string

definition place_fence_in_direction ::
    "Board \<Rightarrow> string \<Rightarrow> coord \<Rightarrow> (py_value \<times> Board) option" where
  "place_fence_in_direction b direction tile =
     (if direction = ''v'' then
        do {
          t \<leftarrow> deref b tile;
          (case get_direction t (- 1, 0) of
             None \<Rightarrow> Some (PyBool False, b)
           | Some border_tile \<Rightarrow>
               do {
                 _ \<leftarrow> deref b border_tile;
                 let b1 = update_tile b tile (close_direction ''west'');
                 let b2 = update_tile b1 border_tile (close_direction ''east'');
                 let rolled_back =
                   update_tile (update_tile b2 tile (open_direction ''west'' border_tile))
                     border_tile (open_direction ''east'' tile);
                 fair_1 \<leftarrow> fair_play b2 1;
                 (if \<not> fair_1 then Some (PyStr ''breaks the fair play rule'', rolled_back)
                  else
                    do {
                      fair_2 \<leftarrow> fair_play b2 2;
                      (if \<not> fair_2 then Some (PyStr ''breaks the fair play rule'', rolled_back)
                       else Some (PyBool True, b2))
                    })
               })
        }
      else if direction = ''h'' then
        do {
          t \<leftarrow> deref b tile;
          (case get_direction t (0, - 1) of
             None \<Rightarrow> Some (PyBool False, b)
           | Some border_tile \<Rightarrow>
               do {
                 _ \<leftarrow> deref b border_tile;
                 let b1 = update_tile b tile (close_direction ''north'');
                 let b2 = update_tile b1 border_tile (close_direction ''south'');
                 let rolled_back =
                   update_tile (update_tile b2 tile (open_direction ''north'' border_tile))
                     border_tile (open_direction ''south'' tile);
                 fair_1 \<leftarrow> fair_play b2 1;
                 (if \<not> fair_1 then Some (PyStr ''breaks the fair play rule'', rolled_back)
                  else
                    do {
                      fair_2 \<leftarrow> fair_play b2 2;
                      (if \<not> fair_2 then Some (PyStr ''breaks the fair play rule'', rolled_back)
                       else Some (PyBool True, b2))
                    })
               })
        }
      else Some (PyBool True, b))"

definition place_fence :: "Board \<Rightarrow> string \<Rightarrow> coord \<Rightarrow> (py_value \<times> Board) option" where
  "place_fence b direction position =
     (if \<not> (direction = ''v'' \<or> direction = ''h'') then Some (PyBool False, b)
      else if \<not> (0 \<le> fst position \<and> fst position \<le> 8)
              \<or> \<not> (0 \<le> snd position \<and> snd position \<le> 8)
      then Some (PyBool False, b)
      else
        do {
          tile \<leftarrow> board_index b position;
          place_fence_in_direction b direction tile
        })"

definition in_grid :: "coord \<Rightarrow> bool" where
  "in_grid pos = (0 \<le> fst pos \<and> fst pos \<le> 8 \<and> 0 \<le> snd pos \<and> snd pos \<le> 8)"

definition grid_coords :: "coord list" where
  "grid_coords = concat (map (\<lambda>row. map (\<lambda>col. (col, row)) [0..8]) [0..8])"

definition grid_shape :: "Board \<Rightarrow> bool" where
  "grid_shape b = (length (board b) = 9 \<and> (\<forall>row \<in> set (board b). length row = 9))"

lemma ball_grid_coords: "(\<forall>pos \<in> set grid_coords. P pos) \<longleftrightarrow> (\<forall>pos. in_grid pos \<longrightarrow> P pos)"
proof -
  have "set grid_coords = {0..8} \<times> {0..8}"
    by (auto simp: grid_coords_def)
  then show ?thesis by (auto simp: in_grid_def)
qed

lemma set_grid_coords: "pos \<in> set grid_coords \<longleftrightarrow> in_grid pos"
proof -
  have "set grid_coords = {0..8} \<times> {0..8}"
    by (auto simp: grid_coords_def)
  then show ?thesis by (cases pos) (simp add: in_grid_def)
qed

lemma grid_shape_nth: "grid_shape b \<Longrightarrow> i < 9 \<Longrightarrow> length (board b ! i) = 9"
  by (simp add: grid_shape_def)

lemma grid_shape_row: "grid_shape b \<Longrightarrow> in_grid pos \<Longrightarrow> length (board b ! nat (snd pos)) = 9"
  by (rule grid_shape_nth) (auto simp: in_grid_def)

lemma valid_ref_in_grid: "grid_shape b \<Longrightarrow> valid_ref b pos \<longleftrightarrow> in_grid pos"
proof
  assume g: "grid_shape b" and v: "valid_ref b pos"
  then have r: "0 \<le> snd pos" "snd pos \<le> 8" by (auto simp: valid_ref_def grid_shape_def)
  then have "length (board b ! nat (snd pos)) = 9" using g by (auto intro: grid_shape_nth)
  with v r show "in_grid pos" by (auto simp: valid_ref_def in_grid_def)
next
  assume g: "grid_shape b" and v: "in_grid pos"
  from grid_shape_row[OF g v] g v show "valid_ref b pos"
    by (auto simp: valid_ref_def in_grid_def grid_shape_def)
qed

lemma deref_in_grid: "grid_shape b \<Longrightarrow> in_grid pos \<Longrightarrow> deref b pos = Some (tile_at b pos)"
  by (simp add: deref_def valid_ref_in_grid)

lemma board_index_in_grid: "grid_shape b \<Longrightarrow> in_grid pos \<Longrightarrow> board_index b pos = Some pos"
  using grid_shape_row[of b pos]
  by (simp add: board_index_def py_slot_def grid_shape_def in_grid_def)

lemma grid_shape_iff_nth:
  "grid_shape b \<longleftrightarrow> length (board b) = 9 \<and> (\<forall>i<9. length (board b ! i) = 9)"
  by (auto simp: grid_shape_def all_set_conv_all_nth)

lemma length_nth_update_nested:
  "length (rows[i := (rows ! i)[j := x]] ! k) = length (rows ! k)"
  by (cases "i < length rows"; cases "k = i") (simp_all add: list_update_beyond)

lemma grid_shape_update_tile [simp]: "grid_shape (update_tile b ref f) = grid_shape b"
  unfolding grid_shape_iff_nth update_tile_def
  by (simp add: length_nth_update_nested)

lemma player_update_tile [simp]:
  "player_1 (update_tile b ref f) = player_1 b" "player_2 (update_tile b ref f) = player_2 b"
  by (simp_all add: update_tile_def)

lemma tile_at_update_tile:
  assumes "grid_shape b" "in_grid ref" "in_grid pos"
  shows "tile_at (update_tile b ref f) pos = (if pos = ref then f (tile_at b ref) else tile_at b pos)"
proof -
  have l: "nat (snd ref) < length (board b)" "nat (fst ref) < length (board b ! nat (snd ref))"
    using assms grid_shape_row[of b ref] by (auto simp: grid_shape_def in_grid_def)
  have eq: "pos = ref \<longleftrightarrow> nat (snd pos) = nat (snd ref) \<and> nat (fst pos) = nat (fst ref)"
    using assms by (auto simp: in_grid_def prod_eq_iff)
  show ?thesis
    using l unfolding eq by (auto simp: tile_at_def update_tile_def nth_list_update)
qed

lemma board_eqI:
  assumes "grid_shape b" "grid_shape b'" "player_1 b = player_1 b'" "player_2 b = player_2 b'"
    and "\<And>pos. in_grid pos \<Longrightarrow> tile_at b pos = tile_at b' pos"
  shows "b = (b' :: Board)"
proof -
  have "board b = board b'"
  proof (rule nth_equalityI)
    show "length (board b) = length (board b')" using assms by (simp add: grid_shape_def)
  next
    fix i assume i: "i < length (board b)"
    then have i9: "i < 9" using assms by (simp add: grid_shape_def)
    show "board b ! i = board b' ! i"
    proof (rule nth_equalityI)
      show "length (board b ! i) = length (board b' ! i)"
        using assms i by (simp add: grid_shape_def)
    next
      fix j assume "j < length (board b ! i)"
      then have j9: "j < 9" using assms i by (simp add: grid_shape_def)
      have "in_grid (int j, int i)" using i9 j9 by (simp add: in_grid_def)
      from assms(5)[OF this] show "board b ! i ! j = board b' ! i ! j"
        by (simp add: tile_at_def)
    qed
  qed
  with assms show ?thesis by simp
qed


definition coords_ok :: "Board \<Rightarrow> bool" where
  "coords_ok b = (\<forall>pos \<in> set grid_coords. board_coord (tile_at b pos) = Some pos)"

definition links_ok :: "Board \<Rightarrow> bool" where
  "links_ok b =
     (\<forall>pos \<in> set grid_coords.
        (\<forall>n. north (tile_at b pos) = Some n \<longrightarrow>
           n = (fst pos, snd pos - 1) \<and> in_grid n \<and> south (tile_at b n) = Some pos) \<and>
        (\<forall>s. south (tile_at b pos) = Some s \<longrightarrow>
           s = (fst pos, snd pos + 1) \<and> in_grid s \<and> north (tile_at b s) = Some pos) \<and>
        (\<forall>e. east (tile_at b pos) = Some e \<longrightarrow>
           e = (fst pos + 1, snd pos) \<and> in_grid e \<and> west (tile_at b e) = Some pos) \<and>
        (\<forall>w. west (tile_at b pos) = Some w \<longrightarrow>
           w = (fst pos - 1, snd pos) \<and> in_grid w \<and> east (tile_at b w) = Some pos))"

definition board_inv :: "Board \<Rightarrow> bool" where
  "board_inv b =
     (grid_shape b \<and> coords_ok b \<and> links_ok b \<and> in_grid (player_1 b) \<and> in_grid (player_2 b))"

definition pawns_ok :: "Board \<Rightarrow> bool" where
  "pawns_ok b =
     (player_1 b \<noteq> player_2 b \<and>
      (\<forall>pos \<in> set grid_coords.
         has_pawn (tile_at b pos) =
           (if pos = player_1 b then 1 else if pos = player_2 b then 2 else 0)))"

definition init_links :: "coord \<Rightarrow> Tile \<Rightarrow> Tile" where
  "init_links pos t =
     t\<lparr>north := (if snd pos \<noteq> 0 then Some (fst pos, snd pos - 1) else north t),
       south := (if snd pos \<noteq> 8 then Some (fst pos, snd pos + 1) else south t),
       east := (if fst pos \<noteq> 8 then Some (fst pos + 1, snd pos) else east t),
       west := (if fst pos \<noteq> 0 then Some (fst pos - 1, snd pos) else west t)\<rparr>"

lemma init_links_idem: "init_links pos (init_links pos t) = init_links pos t"
  by (simp add: init_links_def)

lemma open_links_shape [simp]: "grid_shape (open_links b r c) = grid_shape b"
  by (simp add: open_links_def Let_def)

lemma open_links_players [simp]:
  "player_1 (open_links b r c) = player_1 b" "player_2 (open_links b r c) = player_2 b"
  by (simp_all add: open_links_def Let_def)

lemma open_links_tile:
  assumes "grid_shape b" "in_grid (c, r)" "in_grid pos"
  shows "tile_at (open_links b r c) pos =
           (if pos = (c, r) then init_links pos (tile_at b pos) else tile_at b pos)"
  using assms
  by (auto simp: open_links_def Let_def tile_at_update_tile open_direction_def init_links_def)

lemma fold_cols_shape [simp]:
  "grid_shape (fold (\<lambda>c b'. open_links b' r c) cs b) = grid_shape b"
  by (induction cs arbitrary: b) simp_all

lemma fold_cols_players [simp]:
  "player_1 (fold (\<lambda>c b'. open_links b' r c) cs b) = player_1 b"
  "player_2 (fold (\<lambda>c b'. open_links b' r c) cs b) = player_2 b"
  by (induction cs arbitrary: b) simp_all

lemma fold_cols_tile:
  assumes "grid_shape b" "0 \<le> r" "r \<le> 8" "set cs \<subseteq> {0..8}" "in_grid pos"
  shows "tile_at (fold (\<lambda>c b'. open_links b' r c) cs b) pos =
           (if snd pos = r \<and> fst pos \<in> set cs then init_links pos (tile_at b pos)
            else tile_at b pos)"
  using assms
proof (induction cs arbitrary: b)
  case Nil
  then show ?case by simp
next
  case (Cons c cs)
  have g: "in_grid (c, r)" using Cons.prems by (simp add: in_grid_def)
  have "tile_at (fold (\<lambda>c b'. open_links b' r c) cs (open_links b r c)) pos =
          (if snd pos = r \<and> fst pos \<in> set cs then init_links pos (tile_at (open_links b r c) pos)
           else tile_at (open_links b r c) pos)"
    using Cons.prems by (intro Cons.IH) simp_all
  then show ?case
    using open_links_tile[OF Cons.prems(1) g Cons.prems(5)]
    by (cases pos) (auto simp: init_links_idem)
qed

lemma fold_rows_shape [simp]:
  "grid_shape (fold (\<lambda>r b. fold (\<lambda>c b'. open_links b' r c) cs b) rs b) = grid_shape b"
  by (induction rs arbitrary: b) simp_all

lemma fold_rows_players [simp]:
  "player_1 (fold (\<lambda>r b. fold (\<lambda>c b'. open_links b' r c) cs b) rs b) = player_1 b"
  "player_2 (fold (\<lambda>r b. fold (\<lambda>c b'. open_links b' r c) cs b) rs b) = player_2 b"
  by (induction rs arbitrary: b) simp_all

lemma fold_rows_tile:
  assumes "grid_shape b" "set rs \<subseteq> {0..8}" "set cs \<subseteq> {0..8}" "in_grid pos"
  shows "tile_at (fold (\<lambda>r b. fold (\<lambda>c b'. open_links b' r c) cs b) rs b) pos =
           (if snd pos \<in> set rs \<and> fst pos \<in> set cs then init_links pos (tile_at b pos)
            else tile_at b pos)"
  using assms
proof (induction rs arbitrary: b)
  case Nil
  then show ?case by simp
next
  case (Cons r rs)
  let ?b1 = "fold (\<lambda>c b'. open_links b' r c) cs b"
  have r: "0 \<le> r" "r \<le> 8" using Cons.prems by simp_all
  have "tile_at (fold (\<lambda>r b. fold (\<lambda>c b'. open_links b' r c) cs b) rs ?b1) pos =
          (if snd pos \<in> set rs \<and> fst pos \<in> set cs then init_links pos (tile_at ?b1 pos)
           else tile_at ?b1 pos)"
    using Cons.prems by (intro Cons.IH) simp_all
  then show ?case
    using fold_cols_tile[OF Cons.prems(1) r Cons.prems(3) Cons.prems(4)]
    by (auto simp: init_links_idem)
qed

definition init_tile :: "coord \<Rightarrow> Tile" where
  "init_tile pos =
     \<lparr>north = (if snd pos \<noteq> 0 then Some (fst pos, snd pos - 1) else None),
      south = (if snd pos \<noteq> 8 then Some (fst pos, snd pos + 1) else None),
      east = (if fst pos \<noteq> 8 then Some (fst pos + 1, snd pos) else None),
      west = (if fst pos \<noteq> 0 then Some (fst pos - 1, snd pos) else None),
      has_pawn = (if pos = (4, 0) then 1 else if pos = (4, 8) then 2 else 0),
      board_coord = Some pos\<rparr>"

definition blank_board :: Board where
  "blank_board =
     \<lparr>player_1 = (4, 0), player_2 = (4, 8),
      board = map (\<lambda>row. map (\<lambda>col. set_board_coord (col, row) Tile_init) [0..8]) [0..8]\<rparr>"

lemma blank_board_shape: "grid_shape blank_board"
  by (simp add: grid_shape_iff_nth blank_board_def)

lemma nth_map_upto8: "0 \<le> i \<Longrightarrow> i \<le> 8 \<Longrightarrow> map f [0..8] ! nat i = f i"
  by (simp add: nth_map nth_upto del: upto_rec_numeral)

lemma blank_board_tile:
  "in_grid pos \<Longrightarrow> tile_at blank_board pos = set_board_coord pos Tile_init"
  by (cases pos) (simp add: tile_at_def blank_board_def in_grid_def nth_map_upto8 del: upto_rec_numeral)

lemma Board_init_unfold:
  "Board_init =
     update_tile
       (update_tile
          (fold (\<lambda>r b. fold (\<lambda>c b'. open_links b' r c) [0..8] b) [0..8] blank_board)
          (4, 0) (set_has_pawn 1))
       (4, 8) (set_has_pawn 2)"
  unfolding Board_init_def blank_board_def Let_def ..

lemma Board_init_shape: "grid_shape Board_init"
  unfolding Board_init_unfold by (simp add: blank_board_shape)

lemma Board_init_players: "player_1 Board_init = (4, 0)" "player_2 Board_init = (4, 8)"
  unfolding Board_init_unfold by (simp_all add: blank_board_def)

lemma Board_init_tile: "in_grid pos \<Longrightarrow> tile_at Board_init pos = init_tile pos"
  unfolding Board_init_unfold
  by (simp add: tile_at_update_tile fold_rows_tile blank_board_shape blank_board_tile
      in_grid_def init_links_def init_tile_def set_has_pawn_def set_board_coord_def Tile_init_def)

lemma Board_init_inv: "board_inv Board_init"
  unfolding board_inv_def coords_ok_def links_ok_def ball_grid_coords
  by (auto simp: Board_init_shape Board_init_players Board_init_tile in_grid_def init_tile_def
      split: if_splits)

lemma Board_init_pawns: "pawns_ok Board_init"
  unfolding pawns_ok_def ball_grid_coords
  by (simp add: Board_init_players Board_init_tile init_tile_def)

definition current_pos :: "Board \<Rightarrow> int \<Rightarrow> coord" where
  "current_pos b player = (if player = 1 then player_1 b else player_2 b)"

definition moved :: "Board \<Rightarrow> int \<Rightarrow> coord \<Rightarrow> Board" where
  "moved b player new_pos =
     (let b1 = update_tile b (current_pos b player) (set_has_pawn 0);
          b2 = update_tile b1 new_pos (set_has_pawn player)
      in if player = 1 then b2\<lparr>player_1 := new_pos\<rparr> else b2\<lparr>player_2 := new_pos\<rparr>)"

definition jump_cond :: "Board \<Rightarrow> coord \<Rightarrow> int \<Rightarrow> int \<Rightarrow> bool" where
  "jump_cond b cur row_dir col_dir =
     ((\<bar>row_dir\<bar> = 2 \<or> \<bar>col_dir\<bar> = 2) \<and> (\<bar>row_dir\<bar> = 0 \<or> \<bar>col_dir\<bar> = 0) \<and>
      (\<exists>mid. get_direction (tile_at b cur) (col_dir, row_dir) = Some mid \<and>
         has_pawn (tile_at b mid) \<noteq> 0 \<and>
         get_direction (tile_at b mid) (col_dir, row_dir) \<noteq> None))"

definition diag_cond :: "Board \<Rightarrow> coord \<Rightarrow> int \<Rightarrow> int \<Rightarrow> bool" where
  "diag_cond b cur row_dir col_dir =
     (\<bar>row_dir\<bar> = 1 \<and> \<bar>col_dir\<bar> = 1 \<and>
      ((\<exists>cc. get_direction (tile_at b cur) (col_dir, 0) = Some cc \<and>
          has_pawn (tile_at b cc) \<noteq> 0 \<and>
          get_direction (tile_at b cc) (col_dir, 0) = None \<and>
          get_direction (tile_at b cc) (0, row_dir) \<noteq> None) \<or>
       (\<not> (\<exists>cc. get_direction (tile_at b cur) (col_dir, 0) = Some cc \<and>
              has_pawn (tile_at b cc) \<noteq> 0) \<and>
        (\<exists>cr. get_direction (tile_at b cur) (0, row_dir) = Some cr \<and>
           has_pawn (tile_at b cr) \<noteq> 0 \<and>
           get_direction (tile_at b cr) (0, row_dir) = None \<and>
           get_direction (tile_at b cr) (col_dir, 0) \<noteq> None))))"

lemma links_okD:
  assumes "links_ok b" "in_grid pos"
  shows "north (tile_at b pos) = Some n \<Longrightarrow>
           n = (fst pos, snd pos - 1) \<and> in_grid n \<and> south (tile_at b n) = Some pos"
    and "south (tile_at b pos) = Some n \<Longrightarrow>
           n = (fst pos, snd pos + 1) \<and> in_grid n \<and> north (tile_at b n) = Some pos"
    and "east (tile_at b pos) = Some n \<Longrightarrow>
           n = (fst pos + 1, snd pos) \<and> in_grid n \<and> west (tile_at b n) = Some pos"
    and "west (tile_at b pos) = Some n \<Longrightarrow>
           n = (fst pos - 1, snd pos) \<and> in_grid n \<and> east (tile_at b n) = Some pos"
proof -
  note q = assms(1)[unfolded links_ok_def ball_grid_coords, THEN spec, THEN mp, OF assms(2)]
  show
    "north (tile_at b pos) = Some n \<Longrightarrow>
           n = (fst pos, snd pos - 1) \<and> in_grid n \<and> south (tile_at b n) = Some pos"
    "south (tile_at b pos) = Some n \<Longrightarrow>
           n = (fst pos, snd pos + 1) \<and> in_grid n \<and> north (tile_at b n) = Some pos"
    "east (tile_at b pos) = Some n \<Longrightarrow>
           n = (fst pos + 1, snd pos) \<and> in_grid n \<and> west (tile_at b n) = Some pos"
    "west (tile_at b pos) = Some n \<Longrightarrow>
           n = (fst pos - 1, snd pos) \<and> in_grid n \<and> east (tile_at b n) = Some pos"
    using q by blast+
qed

lemma get_direction_cases:
  assumes "get_direction t d = Some n"
  shows "west t = Some n \<or> east t = Some n \<or> north t = Some n \<or> south t = Some n"
  using assms unfolding get_direction_def by (simp split: if_splits)

lemma links_in_grid:
  assumes "links_ok b" "in_grid pos" "get_direction (tile_at b pos) d = Some n"
  shows "in_grid n"
  using get_direction_cases[OF assms(3)] links_okD[OF assms(1,2)] by blast

lemma can_jump_pawn_inv:
  assumes "grid_shape b" "links_ok b" "in_grid cur"
  shows "can_jump_pawn b (tile_at b cur) row_dir col_dir = Some (jump_cond b cur row_dir col_dir)"
proof (cases "get_direction (tile_at b cur) (col_dir, row_dir)")
  case None
  then show ?thesis by (simp add: can_jump_pawn_def jump_cond_def)
next
  case (Some mid)
  then have "in_grid mid" using assms links_in_grid by blast
  then have "deref b mid = Some (tile_at b mid)" using assms deref_in_grid by blast
  with Some show ?thesis
    by (simp add: can_jump_pawn_def jump_cond_def get_has_pawn_def)
qed

definition row_cond :: "Board \<Rightarrow> coord \<Rightarrow> int \<Rightarrow> int \<Rightarrow> bool" where
  "row_cond b cur row_dir col_dir =
     (\<exists>cr. get_direction (tile_at b cur) (0, row_dir) = Some cr \<and>
           has_pawn (tile_at b cr) \<noteq> 0 \<and>
           get_direction (tile_at b cr) (0, row_dir) = None \<and>
           get_direction (tile_at b cr) (col_dir, 0) \<noteq> None)"

lemma diagonal_by_row_inv:
  assumes "grid_shape b" "links_ok b" "in_grid cur"
  shows "diagonal_by_row b (tile_at b cur) row_dir col_dir = Some (row_cond b cur row_dir col_dir)"
proof (cases "get_direction (tile_at b cur) (0, row_dir)")
  case None
  then show ?thesis by (simp add: diagonal_by_row_def row_cond_def)
next
  case (Some cr)
  then have "in_grid cr" using assms links_in_grid by blast
  then have "deref b cr = Some (tile_at b cr)" using assms deref_in_grid by blast
  with Some show ?thesis
    by (simp add: diagonal_by_row_def row_cond_def get_has_pawn_def)
qed

lemma diag_cond_alt:
  "diag_cond b cur row_dir col_dir =
     (\<bar>row_dir\<bar> = 1 \<and> \<bar>col_dir\<bar> = 1 \<and>
      (case get_direction (tile_at b cur) (col_dir, 0) of
         None \<Rightarrow> row_cond b cur row_dir col_dir
       | Some cc \<Rightarrow>
           if has_pawn (tile_at b cc) \<noteq> 0
           then get_direction (tile_at b cc) (col_dir, 0) = None \<and>
                get_direction (tile_at b cc) (0, row_dir) \<noteq> None
           else row_cond b cur row_dir col_dir))"
  unfolding diag_cond_def row_cond_def
  by (cases "get_direction (tile_at b cur) (col_dir, 0)") auto

lemma can_move_diagonally_inv:
  assumes "grid_shape b" "links_ok b" "in_grid cur"
  shows "can_move_diagonally b (tile_at b cur) row_dir col_dir =
           Some (diag_cond b cur row_dir col_dir)"
proof (cases "\<bar>row_dir\<bar> = 1 \<and> \<bar>col_dir\<bar> = 1")
  case False
  then have "can_move_diagonally b (tile_at b cur) row_dir col_dir = Some False"
    by (simp only: can_move_diagonally_def if_not_P if_False)
  moreover have "\<not> diag_cond b cur row_dir col_dir"
    using False unfolding diag_cond_def by blast
  ultimately show ?thesis by simp
next
  case shape: True
  note r = diagonal_by_row_inv[OF assms]
  have 1: "can_move_diagonally b (tile_at b cur) row_dir col_dir =
     (case get_direction (tile_at b cur) (col_dir, 0) of
              None \<Rightarrow> diagonal_by_row b (tile_at b cur) row_dir col_dir
            | Some change_col \<Rightarrow>
                do {
                  change_col_tile \<leftarrow> deref b change_col;
                  (if get_has_pawn change_col_tile \<noteq> 0
                   then (if get_direction change_col_tile (col_dir, 0) = None
                            \<and> get_direction change_col_tile (0, row_dir) \<noteq> None
                         then Some True else Some False)
                   else diagonal_by_row b (tile_at b cur) row_dir col_dir)
                })"
    using shape by (simp only: can_move_diagonally_def if_P)
  have 2: "diag_cond b cur row_dir col_dir =
      (case get_direction (tile_at b cur) (col_dir, 0) of
         None \<Rightarrow> row_cond b cur row_dir col_dir
       | Some cc \<Rightarrow>
           if has_pawn (tile_at b cc) \<noteq> 0
           then get_direction (tile_at b cc) (col_dir, 0) = None \<and>
                get_direction (tile_at b cc) (0, row_dir) \<noteq> None
           else row_cond b cur row_dir col_dir)"
    using shape by (simp only: diag_cond_alt simp_thms)
  show ?thesis
  proof (cases "get_direction (tile_at b cur) (col_dir, 0)")
    case None
    then show ?thesis unfolding 1 2 by (simp add: r)
  next
    case (Some cc)
    then have "in_grid cc" using assms links_in_grid by blast
    then have "deref b cc = Some (tile_at b cc)" using assms deref_in_grid by blast
    with Some show ?thesis unfolding 1 2 by (simp add: r get_has_pawn_def)
  qed
qed

lemma tile_at_player_update [simp]:
  "tile_at (b\<lparr>player_1 := x\<rparr>) pos = tile_at b pos"
  "tile_at (b\<lparr>player_2 := x\<rparr>) pos = tile_at b pos"
  by (simp_all add: tile_at_def)

lemma grid_shape_player_update [simp]:
  "grid_shape (b\<lparr>player_1 := x\<rparr>) = grid_shape b"
  "grid_shape (b\<lparr>player_2 := x\<rparr>) = grid_shape b"
  by (simp_all add: grid_shape_def)

lemma no_move_at_zero:
  "\<not> can_move_regularly t 0 0" "\<not> jump_cond b cur 0 0" "\<not> diag_cond b cur 0 0"
  by (simp_all add: can_move_regularly_def jump_cond_def diag_cond_def)

definition move_ok :: "Board \<Rightarrow> int \<Rightarrow> coord \<Rightarrow> bool" where
  "move_ok b player new_pos =
     (let cur = current_pos b player;
          row_dir = snd new_pos - snd cur;
          col_dir = fst new_pos - fst cur
      in in_grid new_pos \<and> has_pawn (tile_at b new_pos) = 0 \<and>
         (can_move_regularly (tile_at b cur) row_dir col_dir \<or>
          jump_cond b cur row_dir col_dir \<or> diag_cond b cur row_dir col_dir))"

lemma move_pawn_out:
  assumes "\<not> in_grid new_pos"
  shows "move_pawn b player new_pos = Some (False, b)"
proof -
  have "\<not> (0 \<le> fst new_pos \<and> fst new_pos \<le> 8) \<or> \<not> (0 \<le> snd new_pos \<and> snd new_pos \<le> 8)"
    using assms by (auto simp: in_grid_def)
  then show ?thesis by (simp only: move_pawn_def if_P)
qed

lemma move_pawn_in:
  assumes "grid_shape b" "in_grid new_pos"
  shows "move_pawn b player new_pos =
     (if get_has_pawn (tile_at b new_pos) \<noteq> 0 then Some (False, b)
           else
             do {
               let current_pos = (if player = 1 then player_1 b else player_2 b);
               current_ref \<leftarrow> board_index b current_pos;
               current_tile \<leftarrow> deref b current_ref;
               let row_dir = snd new_pos - snd current_pos;
               let col_dir = fst new_pos - fst current_pos;
               let moving_regularly = can_move_regularly current_tile row_dir col_dir;
               jumping_pawn \<leftarrow> can_jump_pawn b current_tile row_dir col_dir;
               moving_diagonally \<leftarrow> can_move_diagonally b current_tile row_dir col_dir;
               (if moving_regularly \<or> jumping_pawn \<or> moving_diagonally
                then
                  (let b1 = update_tile b current_ref (set_has_pawn 0);
                       b2 = update_tile b1 new_pos (set_has_pawn player)
                   in Some (True, if player = 1 then b2\<lparr>player_1 := new_pos\<rparr>
                                  else b2\<lparr>player_2 := new_pos\<rparr>))
                else Some (False, b))
             })"
proof -
  have b: "\<not> (\<not> (0 \<le> fst new_pos \<and> fst new_pos \<le> 8) \<or> \<not> (0 \<le> snd new_pos \<and> snd new_pos \<le> 8))"
    using assms by (simp add: in_grid_def)
  show ?thesis
    unfolding move_pawn_def if_not_P[OF b] board_index_in_grid[OF assms] 
    by (simp only: deref_in_grid[OF assms] bind.bind_lunit)
qed

lemma move_pawn_inv:
  assumes "board_inv b"
  shows "move_pawn b player new_pos =
           Some (move_ok b player new_pos,
                 if move_ok b player new_pos then moved b player new_pos else b)"
proof -
  have g: "grid_shape b" and l: "links_ok b" using assms by (simp_all add: board_inv_def)
  have c: "in_grid (current_pos b player)"
    using assms by (simp add: board_inv_def current_pos_def)
  show ?thesis
  proof (cases "in_grid new_pos")
    case False
    then have "\<not> move_ok b player new_pos" by (simp add: move_ok_def Let_def)
    with move_pawn_out[OF False] show ?thesis by simp
  next
    case True
    show ?thesis
    proof (cases "has_pawn (tile_at b new_pos) \<noteq> 0")
      case occ: True
      then have "\<not> move_ok b player new_pos" by (simp add: move_ok_def Let_def)
      with occ show ?thesis
        unfolding move_pawn_in[OF g True] by (simp add: get_has_pawn_def)
    next
      case free: False
      have f: "board_index b (current_pos b player) = Some (current_pos b player)"
        "deref b (current_pos b player) = Some (tile_at b (current_pos b player))"
        using board_index_in_grid[OF g c] deref_in_grid[OF g c] by simp_all
      have ok: "move_ok b player new_pos =
         (can_move_regularly (tile_at b (current_pos b player))
            (snd new_pos - snd (current_pos b player)) (fst new_pos - fst (current_pos b player)) \<or>
          jump_cond b (current_pos b player)
            (snd new_pos - snd (current_pos b player)) (fst new_pos - fst (current_pos b player)) \<or>
          diag_cond b (current_pos b player)
            (snd new_pos - snd (current_pos b player)) (fst new_pos - fst (current_pos b player)))"
        using True free by (simp add: move_ok_def Let_def)
      show ?thesis
        unfolding move_pawn_in[OF g True] current_pos_def[symmetric] ok moved_def
        using free
        by (simp add: get_has_pawn_def f can_jump_pawn_inv[OF g l c]
            can_move_diagonally_inv[OF g l c] Let_def)
    qed
  qed
qed

lemma move_ok_distinct: "move_ok b player new_pos \<Longrightarrow> new_pos \<noteq> current_pos b player"
proof
  assume m: "move_ok b player new_pos" and e: "new_pos = current_pos b player"
  from m show False
    unfolding move_ok_def Let_def e by (simp add: no_move_at_zero)
qed

definition link_toward :: "Board \<Rightarrow> coord \<Rightarrow> coord \<Rightarrow> coord option" where
  "link_toward b A B = get_direction (tile_at b A) (fst B - fst A, snd B - snd A)"

definition opponent :: "int \<Rightarrow> int" where
  "opponent player = (if player = 1 then 2 else 1)"

definition step :: "coord \<Rightarrow> coord" where
  "step d =
     (if fst d < 0 then (- 1, 0) else if fst d > 0 then (1, 0)
      else if snd d < 0 then (0, - 1) else if snd d > 0 then (0, 1) else (0, 0))"

lemma link_target:
  assumes "links_ok b" "in_grid pos" "get_direction (tile_at b pos) d = Some n"
  shows "n = (fst pos + fst (step d), snd pos + snd (step d))"
    and "in_grid n"
    and "get_direction (tile_at b n) (- fst (step d), - snd (step d)) = Some pos"
proof -
  note D = links_okD[OF assms(1,2)]
  consider (w) "fst d < 0" | (e) "\<not> fst d < 0" "fst d > 0"
    | (n) "\<not> fst d < 0" "\<not> fst d > 0" "snd d < 0"
    | (s) "\<not> fst d < 0" "\<not> fst d > 0" "\<not> snd d < 0" "snd d > 0"
    | (z) "\<not> fst d < 0" "\<not> fst d > 0" "\<not> snd d < 0" "\<not> snd d > 0"
    by blast
  then have "n = (fst pos + fst (step d), snd pos + snd (step d)) \<and> in_grid n \<and>
    get_direction (tile_at b n) (- fst (step d), - snd (step d)) = Some pos"
  proof cases
    case w
    then have "west (tile_at b pos) = Some n" using assms(3) by (simp add: get_direction_def)
    from D(4)[OF this] w show ?thesis by (auto simp: step_def get_direction_def)
  next
    case e
    then have "east (tile_at b pos) = Some n" using assms(3) by (simp add: get_direction_def)
    from D(3)[OF this] e show ?thesis by (auto simp: step_def get_direction_def)
  next
    case n
    then have "north (tile_at b pos) = Some n" using assms(3) by (simp add: get_direction_def)
    from D(1)[OF this] n show ?thesis by (auto simp: step_def get_direction_def)
  next
    case s
    then have "south (tile_at b pos) = Some n" using assms(3) by (simp add: get_direction_def)
    from D(2)[OF this] s show ?thesis by (auto simp: step_def get_direction_def)
  next
    case z
    then show ?thesis using assms(3) by (simp add: get_direction_def)
  qed
  then show "n = (fst pos + fst (step d), snd pos + snd (step d))" "in_grid n"
    "get_direction (tile_at b n) (- fst (step d), - snd (step d)) = Some pos"
    by blast+
qed

lemma get_direction_step: "get_direction t (step d) = get_direction t d"
  by (simp add: get_direction_def step_def)

lemma get_direction_same_step: "step d = step d' \<Longrightarrow> get_direction t d = get_direction t d'"
  by (metis get_direction_step)

lemma regular_shape:
  assumes "(\<bar>row_dir\<bar> = 1 \<and> col_dir = 0) \<or> (row_dir = 0 \<and> \<bar>col_dir\<bar> = 1)"
  shows "can_move_regularly t row_dir col_dir = (get_direction t (col_dir, row_dir) \<noteq> None)"
    and "\<not> jump_cond b cur row_dir col_dir" and "\<not> diag_cond b cur row_dir col_dir"
  using assms by (auto simp: can_move_regularly_def jump_cond_def diag_cond_def)

lemma jump_shape:
  assumes "(\<bar>row_dir\<bar> = 2 \<and> col_dir = 0) \<or> (row_dir = 0 \<and> \<bar>col_dir\<bar> = 2)"
  shows "\<not> can_move_regularly t row_dir col_dir" and "\<not> diag_cond b cur row_dir col_dir"
    and "jump_cond b cur row_dir col_dir =
      (\<exists>mid. get_direction (tile_at b cur) (col_dir, row_dir) = Some mid \<and>
         has_pawn (tile_at b mid) \<noteq> 0 \<and>
         get_direction (tile_at b mid) (col_dir, row_dir) \<noteq> None)"
  using assms by (auto simp: can_move_regularly_def jump_cond_def diag_cond_def)

lemma diagonal_shape:
  assumes "\<bar>row_dir\<bar> = 1" "\<bar>col_dir\<bar> = 1"
  shows "\<not> can_move_regularly t row_dir col_dir" and "\<not> jump_cond b cur row_dir col_dir"
  using assms by (auto simp: can_move_regularly_def jump_cond_def)

definition neighbour :: "coord \<Rightarrow> coord \<Rightarrow> coord" where
  "neighbour pos d = (fst pos + fst (step d), snd pos + snd (step d))"

lemma pawns_okD:
  assumes "pawns_ok b" "in_grid pos"
  shows "has_pawn (tile_at b pos) =
           (if pos = player_1 b then 1 else if pos = player_2 b then 2 else 0)"
  using assms(1)[unfolded pawns_ok_def ball_grid_coords, THEN conjunct2, THEN spec, THEN mp,
      OF assms(2)] .

lemma pawn_opponent:
  assumes "pawns_ok b" "player = 1 \<or> player = 2" "in_grid m" "m \<noteq> current_pos b player"
  shows "(has_pawn (tile_at b m) \<noteq> 0) = (has_pawn (tile_at b m) = opponent player)"
  using assms(2,4) unfolding pawns_okD[OF assms(1,3)] current_pos_def opponent_def
  by auto

lemma link_toward_neighbour:
  "link_toward b pos (neighbour pos d) = get_direction (tile_at b pos) d"
  unfolding link_toward_def neighbour_def
  by (simp add: get_direction_step)

lemma link_open_neighbour:
  assumes "links_ok b" "in_grid pos" "link_toward b pos (neighbour pos d) \<noteq> None"
  shows "link_toward b pos (neighbour pos d) = Some (neighbour pos d)" "in_grid (neighbour pos d)"
proof -
  from assms(3) obtain n where n: "get_direction (tile_at b pos) d = Some n"
    unfolding link_toward_neighbour by blast
  have e: "n = neighbour pos d"
    using link_target(1)[OF assms(1,2) n] by (simp add: neighbour_def)
  show "link_toward b pos (neighbour pos d) = Some (neighbour pos d)"
    using n unfolding link_toward_neighbour e .
  show "in_grid (neighbour pos d)"
    using link_target(2)[OF assms(1,2) n] unfolding e .
qed

lemma neighbour_unit:
  "(\<bar>row_dir\<bar> = 1 \<and> col_dir = 0) \<or> (row_dir = 0 \<and> \<bar>col_dir\<bar> = 1) \<Longrightarrow>
   neighbour pos (col_dir, row_dir) = (fst pos + col_dir, snd pos + row_dir)"
  by (auto simp: neighbour_def step_def)

text \<open>
  Claim C6. On a board that satisfies the board invariant, for an in-bounds unoccupied target
  one step away along exactly one axis, \<open>move_pawn\<close> succeeds if and only if the link of the
  current Tile toward the target is open; the pawn is then moved, and otherwise the board is
  returned unchanged. An open link toward the target points to the target itself.
\<close>

theorem regular_move_iff_link_open:
  assumes "board_inv b" and "in_grid new_pos" and "has_pawn (tile_at b new_pos) = 0"
    and "(\<bar>snd new_pos - snd (current_pos b player)\<bar> = 1
            \<and> fst new_pos - fst (current_pos b player) = 0)
         \<or> (snd new_pos - snd (current_pos b player) = 0
            \<and> \<bar>fst new_pos - fst (current_pos b player)\<bar> = 1)"
  shows "move_pawn b player new_pos =
           Some (link_toward b (current_pos b player) new_pos \<noteq> None,
                 if link_toward b (current_pos b player) new_pos \<noteq> None
                 then moved b player new_pos else b)
         \<and> (link_toward b (current_pos b player) new_pos = None
            \<or> link_toward b (current_pos b player) new_pos = Some new_pos)"
proof -
  let ?cur = "current_pos b player"
  let ?rd = "snd new_pos - snd ?cur" and ?cd = "fst new_pos - fst ?cur"
  have l: "links_ok b" and c: "in_grid ?cur"
    using assms(1) by (simp_all add: board_inv_def current_pos_def)
  have nb: "neighbour ?cur (?cd, ?rd) = new_pos"
    using neighbour_unit[OF assms(4)] by simp
  have ok: "move_ok b player new_pos = (link_toward b ?cur new_pos \<noteq> None)"
    using assms(2,3)
    by (simp add: move_ok_def Let_def regular_shape[OF assms(4)] link_toward_def)
  have "link_toward b ?cur new_pos = None \<or> link_toward b ?cur new_pos = Some new_pos"
    using link_open_neighbour(1)[OF l c, of "(?cd, ?rd)"] unfolding nb by blast
  then show ?thesis
    using move_pawn_inv[OF assms(1), of player new_pos] unfolding ok by simp
qed

theorem regular_move_iff_link_open_witness:
  "board_inv Board_init \<and> in_grid (4, 1) \<and> has_pawn (tile_at Board_init (4, 1)) = 0 \<and>
   current_pos Board_init 1 = (4, 0) \<and>
   link_toward Board_init (4, 0) (4, 1) = Some (4, 1) \<and>
   move_pawn Board_init 1 (4, 1) = Some (True, moved Board_init 1 (4, 1))"
proof -
  have g: "in_grid (4, 1)" "in_grid (4, 0)" by (simp_all add: in_grid_def)
  have c: "current_pos Board_init 1 = (4, 0)"
    by (simp add: current_pos_def Board_init_players)
  have f: "has_pawn (tile_at Board_init (4, 1)) = 0"
    by (simp add: Board_init_tile g init_tile_def)
  have k: "link_toward Board_init (4, 0) (4, 1) = Some (4, 1)"
    by (simp add: link_toward_def Board_init_tile g init_tile_def get_direction_def)
  show ?thesis
    using regular_move_iff_link_open[OF Board_init_inv g(1) f, of 1] g c f k Board_init_inv
    by simp
qed

lemma jump_links:
  assumes "(\<bar>row_dir\<bar> = 2 \<and> col_dir = 0) \<or> (row_dir = 0 \<and> \<bar>col_dir\<bar> = 2)"
    and "new_pos = (fst cur + col_dir, snd cur + row_dir)"
  shows "step (fst new_pos - fst (neighbour cur (col_dir, row_dir)),
               snd new_pos - snd (neighbour cur (col_dir, row_dir))) = step (col_dir, row_dir)"
  using assms by (auto simp: neighbour_def step_def)

text \<open>
  Claim C4. On a board that satisfies the board invariant, for an in-bounds unoccupied target
  two steps away along exactly one axis, \<open>move_pawn\<close> succeeds if and only if the link of the
  current Tile toward the middle cell is open, the middle cell holds a pawn, and the link of
  the middle cell toward the target is open. When the pawn markers are consistent and the
  mover is player 1 or 2, a pawn on the middle cell is the opponent's.
\<close>

theorem jump_move_iff:
  assumes "board_inv b" and "in_grid new_pos" and "has_pawn (tile_at b new_pos) = 0"
    and "(\<bar>snd new_pos - snd (current_pos b player)\<bar> = 2
            \<and> fst new_pos - fst (current_pos b player) = 0)
         \<or> (snd new_pos - snd (current_pos b player) = 0
            \<and> \<bar>fst new_pos - fst (current_pos b player)\<bar> = 2)"
    and "mid = neighbour (current_pos b player)
                 (fst new_pos - fst (current_pos b player),
                  snd new_pos - snd (current_pos b player))"
    and "jump = (link_toward b (current_pos b player) mid \<noteq> None
                 \<and> has_pawn (tile_at b mid) \<noteq> 0
                 \<and> link_toward b mid new_pos \<noteq> None)"
  shows "move_pawn b player new_pos = Some (jump, if jump then moved b player new_pos else b)
         \<and> (pawns_ok b \<and> (player = 1 \<or> player = 2) \<longrightarrow>
              jump = (link_toward b (current_pos b player) mid \<noteq> None
                      \<and> has_pawn (tile_at b mid) = opponent player
                      \<and> link_toward b mid new_pos \<noteq> None))"
proof -
  let ?cur = "current_pos b player"
  let ?rd = "snd new_pos - snd ?cur" and ?cd = "fst new_pos - fst ?cur"
  have l: "links_ok b" and c: "in_grid ?cur"
    using assms(1) by (simp_all add: board_inv_def current_pos_def)
  have np: "new_pos = (fst ?cur + ?cd, snd ?cur + ?rd)" by simp
  have k1: "link_toward b ?cur mid = get_direction (tile_at b ?cur) (?cd, ?rd)"
    unfolding assms(5) by (rule link_toward_neighbour)
  have k2: "link_toward b mid new_pos = get_direction (tile_at b mid) (?cd, ?rd)"
    unfolding link_toward_def assms(5)
    by (rule get_direction_same_step) (rule jump_links[OF assms(4) np])
  have open_mid: "link_toward b ?cur mid \<noteq> None \<Longrightarrow>
      get_direction (tile_at b ?cur) (?cd, ?rd) = Some mid \<and> in_grid mid"
    using link_open_neighbour[OF l c, of "(?cd, ?rd)"] unfolding assms(5)[symmetric] k1 by simp
  have jc: "jump_cond b ?cur ?rd ?cd = jump"
  proof
    assume "jump_cond b ?cur ?rd ?cd"
    then obtain m where m: "get_direction (tile_at b ?cur) (?cd, ?rd) = Some m"
      "has_pawn (tile_at b m) \<noteq> 0" "get_direction (tile_at b m) (?cd, ?rd) \<noteq> None"
      unfolding jump_shape(3)[OF assms(4)] by blast
    from m(1) have "link_toward b ?cur mid \<noteq> None" unfolding k1 by simp
    from open_mid[OF this] m(1) have "m = mid" by simp
    with m show jump unfolding assms(6) k1 k2 by simp
  next
    assume jump
    then have j: "link_toward b ?cur mid \<noteq> None" "has_pawn (tile_at b mid) \<noteq> 0"
      "get_direction (tile_at b mid) (?cd, ?rd) \<noteq> None"
      unfolding assms(6) k2 by simp_all
    from open_mid[OF j(1)] j show "jump_cond b ?cur ?rd ?cd"
      unfolding jump_shape(3)[OF assms(4)] by blast
  qed
  have ok: "move_ok b player new_pos = jump"
    using assms(2,3) by (simp add: move_ok_def Let_def jump_shape(1,2)[OF assms(4)] jc)
  have 1: "move_pawn b player new_pos = Some (jump, if jump then moved b player new_pos else b)"
    using move_pawn_inv[OF assms(1), of player new_pos] unfolding ok .
  have 2: "jump = (link_toward b ?cur mid \<noteq> None \<and> has_pawn (tile_at b mid) = opponent player
                      \<and> link_toward b mid new_pos \<noteq> None)"
    if p: "pawns_ok b" "player = 1 \<or> player = 2"
  proof (cases "link_toward b ?cur mid \<noteq> None")
    case False
    then show ?thesis unfolding assms(6) by simp
  next
    case True
    from open_mid[OF True] have g: "in_grid mid" by simp
    have "mid \<noteq> ?cur" unfolding assms(5) using assms(4)
      by (auto simp: neighbour_def step_def prod_eq_iff)
    from pawn_opponent[OF p g this] show ?thesis unfolding assms(6) by simp
  qed
  from 1 2 show ?thesis by blast
qed

lemma links_okI:
  assumes "\<And>pos n. in_grid pos \<Longrightarrow> north (tile_at b pos) = Some n \<Longrightarrow>
             n = (fst pos, snd pos - 1) \<and> in_grid n \<and> south (tile_at b n) = Some pos"
    and "\<And>pos n. in_grid pos \<Longrightarrow> south (tile_at b pos) = Some n \<Longrightarrow>
             n = (fst pos, snd pos + 1) \<and> in_grid n \<and> north (tile_at b n) = Some pos"
    and "\<And>pos n. in_grid pos \<Longrightarrow> east (tile_at b pos) = Some n \<Longrightarrow>
             n = (fst pos + 1, snd pos) \<and> in_grid n \<and> west (tile_at b n) = Some pos"
    and "\<And>pos n. in_grid pos \<Longrightarrow> west (tile_at b pos) = Some n \<Longrightarrow>
             n = (fst pos - 1, snd pos) \<and> in_grid n \<and> east (tile_at b n) = Some pos"
  shows "links_ok b"
  unfolding links_ok_def ball_grid_coords
proof (intro allI impI conjI)
  fix pos n assume "in_grid pos" "north (tile_at b pos) = Some n"
  from assms(1)[OF this]
  show "n = (fst pos, snd pos - 1)" "in_grid n" "south (tile_at b n) = Some pos" by blast+
next
  fix pos n assume "in_grid pos" "south (tile_at b pos) = Some n"
  from assms(2)[OF this]
  show "n = (fst pos, snd pos + 1)" "in_grid n" "north (tile_at b n) = Some pos" by blast+
next
  fix pos n assume "in_grid pos" "east (tile_at b pos) = Some n"
  from assms(3)[OF this]
  show "n = (fst pos + 1, snd pos)" "in_grid n" "west (tile_at b n) = Some pos" by blast+
next
  fix pos n assume "in_grid pos" "west (tile_at b pos) = Some n"
  from assms(4)[OF this]
  show "n = (fst pos - 1, snd pos)" "in_grid n" "east (tile_at b n) = Some pos" by blast+
qed

lemma links_ok_same_links:
  assumes "links_ok b"
    and "\<And>pos. in_grid pos \<Longrightarrow>
           north (tile_at b' pos) = north (tile_at b pos) \<and>
           south (tile_at b' pos) = south (tile_at b pos) \<and>
           east (tile_at b' pos) = east (tile_at b pos) \<and>
           west (tile_at b' pos) = west (tile_at b pos)"
  shows "links_ok b'"
proof (rule links_okI)
  fix pos n assume p: "in_grid pos" and "north (tile_at b' pos) = Some n"
  then have "north (tile_at b pos) = Some n" using assms(2) by simp
  from links_okD(1)[OF assms(1) p this] assms(2)[of n]
  show "n = (fst pos, snd pos - 1) \<and> in_grid n \<and> south (tile_at b' n) = Some pos" by auto
next
  fix pos n assume p: "in_grid pos" and "south (tile_at b' pos) = Some n"
  then have "south (tile_at b pos) = Some n" using assms(2) by simp
  from links_okD(2)[OF assms(1) p this] assms(2)[of n]
  show "n = (fst pos, snd pos + 1) \<and> in_grid n \<and> north (tile_at b' n) = Some pos" by auto
next
  fix pos n assume p: "in_grid pos" and "east (tile_at b' pos) = Some n"
  then have "east (tile_at b pos) = Some n" using assms(2) by simp
  from links_okD(3)[OF assms(1) p this] assms(2)[of n]
  show "n = (fst pos + 1, snd pos) \<and> in_grid n \<and> west (tile_at b' n) = Some pos" by auto
next
  fix pos n assume p: "in_grid pos" and "west (tile_at b' pos) = Some n"
  then have "west (tile_at b pos) = Some n" using assms(2) by simp
  from links_okD(4)[OF assms(1) p this] assms(2)[of n]
  show "n = (fst pos - 1, snd pos) \<and> in_grid n \<and> east (tile_at b' n) = Some pos" by auto
qed

lemma coords_okD: "coords_ok b \<Longrightarrow> in_grid pos \<Longrightarrow> board_coord (tile_at b pos) = Some pos"
  unfolding coords_ok_def ball_grid_coords by blast

lemma moved_shape [simp]: "grid_shape (moved b player new_pos) = grid_shape b"
  by (simp add: moved_def Let_def)

lemma moved_players:
  "player_1 (moved b player new_pos) = (if player = 1 then new_pos else player_1 b)"
  "player_2 (moved b player new_pos) = (if player = 1 then player_2 b else new_pos)"
  by (simp_all add: moved_def Let_def)

lemma tile_at_moved:
  assumes "grid_shape b" "in_grid (current_pos b player)" "in_grid new_pos" "in_grid pos"
  shows "tile_at (moved b player new_pos) pos =
           (if pos = new_pos
            then (if new_pos = current_pos b player
                  then (tile_at b pos)\<lparr>has_pawn := player\<rparr>
                  else (tile_at b pos)\<lparr>has_pawn := player\<rparr>)
            else if pos = current_pos b player then (tile_at b pos)\<lparr>has_pawn := 0\<rparr>
            else tile_at b pos)"
proof (cases "player = 1")
  case True
  with assms show ?thesis
    by (auto simp: moved_def Let_def tile_at_update_tile set_has_pawn_def)
next
  case False
  with assms show ?thesis
    by (auto simp: moved_def Let_def tile_at_update_tile set_has_pawn_def)
qed

lemma board_inv_moved:
  assumes "board_inv b" "in_grid new_pos"
  shows "board_inv (moved b player new_pos)"
proof -
  have g: "grid_shape b" and l: "links_ok b" and co: "coords_ok b"
    and p: "in_grid (player_1 b)" "in_grid (player_2 b)"
    using assms(1) by (simp_all add: board_inv_def)
  have c: "in_grid (current_pos b player)" using p by (simp add: current_pos_def)
  note t = tile_at_moved[OF g c assms(2)]
  have "links_ok (moved b player new_pos)"
    by (rule links_ok_same_links[OF l]) (simp add: t)
  moreover have "coords_ok (moved b player new_pos)"
    unfolding coords_ok_def ball_grid_coords using coords_okD[OF co] by (simp add: t)
  ultimately show ?thesis
    using g p assms(2) by (simp add: board_inv_def moved_players)
qed

lemma pawns_ok_moved:
  assumes "board_inv b" "pawns_ok b" "player = 1 \<or> player = 2"
    and "in_grid new_pos" "has_pawn (tile_at b new_pos) = 0"
  shows "pawns_ok (moved b player new_pos)"
proof -
  have g: "grid_shape b" and p: "in_grid (player_1 b)" "in_grid (player_2 b)"
    using assms(1) by (simp_all add: board_inv_def)
  have c: "in_grid (current_pos b player)" using p by (simp add: current_pos_def)
  note t = tile_at_moved[OF g c assms(4)]
  have d: "player_1 b \<noteq> player_2 b" using assms(2) by (simp add: pawns_ok_def)
  have n1: "new_pos \<noteq> player_1 b"
    using pawns_okD[OF assms(2,4)] assms(5) by (auto split: if_splits)
  have n2: "new_pos \<noteq> player_2 b"
    using pawns_okD[OF assms(2,4)] assms(5) by (auto split: if_splits)
  show ?thesis
    unfolding pawns_ok_def ball_grid_coords
    using assms(3) d n1 n2 pawns_okD[OF assms(2)]
    by (auto simp: t moved_players current_pos_def)
qed

lemma ex_link:
  assumes "links_ok b" "in_grid pos"
  shows "(\<exists>n. get_direction (tile_at b pos) d = Some n \<and> P n) =
         (get_direction (tile_at b pos) d \<noteq> None \<and> P (neighbour pos d))"
proof
  assume "\<exists>n. get_direction (tile_at b pos) d = Some n \<and> P n"
  then obtain n where n: "get_direction (tile_at b pos) d = Some n" "P n" by blast
  from link_target(1)[OF assms n(1)] have "n = neighbour pos d" by (simp add: neighbour_def)
  with n show "get_direction (tile_at b pos) d \<noteq> None \<and> P (neighbour pos d)" by simp
next
  assume a: "get_direction (tile_at b pos) d \<noteq> None \<and> P (neighbour pos d)"
  then obtain n where n: "get_direction (tile_at b pos) d = Some n" by blast
  from link_target(1)[OF assms n] have "n = neighbour pos d" by (simp add: neighbour_def)
  with n a show "\<exists>n. get_direction (tile_at b pos) d = Some n \<and> P n" by simp
qed

text \<open>
  Claim C5. On a board that satisfies the board invariant, for an in-bounds unoccupied target
  one step away on both axes, \<open>move_pawn\<close> succeeds if and only if either (a) the Tile
  \<open>change_col\<close> linked to the current Tile along the column displacement holds a pawn, its
  link continuing in the column direction is closed and its link in the row direction (toward
  the target) is open, or (b) \<open>change_col\<close> is absent or holds no pawn, and the same holds
  of \<open>change_row\<close> with rows and columns swapped. When the pawn markers are consistent and
  the mover is player 1 or 2, a pawn found on either Tile is the opponent's.
\<close>

theorem diagonal_move_iff:
  assumes "board_inv b" and "in_grid new_pos" and "has_pawn (tile_at b new_pos) = 0"
    and "row_dir = snd new_pos - snd (current_pos b player)"
    and "col_dir = fst new_pos - fst (current_pos b player)"
    and "\<bar>row_dir\<bar> = 1" and "\<bar>col_dir\<bar> = 1"
    and "change_col = (fst (current_pos b player) + col_dir, snd (current_pos b player))"
    and "change_row = (fst (current_pos b player), snd (current_pos b player) + row_dir)"
    and "col_pawn = (link_toward b (current_pos b player) change_col \<noteq> None
                     \<and> has_pawn (tile_at b change_col) \<noteq> 0)"
    and "row_pawn = (link_toward b (current_pos b player) change_row \<noteq> None
                     \<and> has_pawn (tile_at b change_row) \<noteq> 0)"
    and "by_col = (col_pawn
                   \<and> link_toward b change_col (fst change_col + col_dir, snd change_col) = None
                   \<and> link_toward b change_col new_pos \<noteq> None)"
    and "by_row = (\<not> col_pawn \<and> row_pawn
                   \<and> link_toward b change_row (fst change_row, snd change_row + row_dir) = None
                   \<and> link_toward b change_row new_pos \<noteq> None)"
  shows "move_pawn b player new_pos =
           Some (by_col \<or> by_row, if by_col \<or> by_row then moved b player new_pos else b)
         \<and> (pawns_ok b \<and> (player = 1 \<or> player = 2) \<longrightarrow>
              col_pawn = (link_toward b (current_pos b player) change_col \<noteq> None
                          \<and> has_pawn (tile_at b change_col) = opponent player)
              \<and> row_pawn = (link_toward b (current_pos b player) change_row \<noteq> None
                          \<and> has_pawn (tile_at b change_row) = opponent player))"
proof -
  let ?cur = "current_pos b player"
  have l: "links_ok b" and c: "in_grid ?cur"
    using assms(1) by (simp_all add: board_inv_def current_pos_def)
  have nc: "neighbour ?cur (col_dir, 0) = change_col"
    unfolding assms(8) using neighbour_unit[of 0 col_dir ?cur] assms(7) by simp
  have nr: "neighbour ?cur (0, row_dir) = change_row"
    unfolding assms(9) using neighbour_unit[of row_dir 0 ?cur] assms(6) by simp
  have k: "link_toward b ?cur change_col = get_direction (tile_at b ?cur) (col_dir, 0)"
    "link_toward b ?cur change_row = get_direction (tile_at b ?cur) (0, row_dir)"
    "link_toward b change_col (fst change_col + col_dir, snd change_col) =
       get_direction (tile_at b change_col) (col_dir, 0)"
    "link_toward b change_row (fst change_row, snd change_row + row_dir) =
       get_direction (tile_at b change_row) (0, row_dir)"
    "link_toward b change_col new_pos = get_direction (tile_at b change_col) (0, row_dir)"
    "link_toward b change_row new_pos = get_direction (tile_at b change_row) (col_dir, 0)"
    unfolding link_toward_def assms(8,9) using assms(4,5) by simp_all
  have dc: "diag_cond b ?cur row_dir col_dir = (by_col \<or> by_row)"
    unfolding diag_cond_def row_cond_def ex_link[OF l c] nc nr assms(12,13) assms(10,11) k
    using assms(6,7) by blast
  have ok: "move_ok b player new_pos = (by_col \<or> by_row)"
    using assms(2,3) diagonal_shape[OF assms(6,7)] dc
    by (simp add: move_ok_def Let_def assms(4)[symmetric] assms(5)[symmetric])
  have 1: "move_pawn b player new_pos =
             Some (by_col \<or> by_row, if by_col \<or> by_row then moved b player new_pos else b)"
    using move_pawn_inv[OF assms(1), of player new_pos] unfolding ok .
  have 2: "col_pawn = (link_toward b ?cur change_col \<noteq> None
                          \<and> has_pawn (tile_at b change_col) = opponent player)"
    if p: "pawns_ok b" "player = 1 \<or> player = 2"
  proof (cases "link_toward b ?cur change_col \<noteq> None")
    case False
    then show ?thesis unfolding assms(10) by simp
  next
    case True
    then have g: "in_grid change_col"
      using link_open_neighbour(2)[OF l c, of "(col_dir, 0)"] unfolding nc by simp
    have "change_col \<noteq> ?cur" unfolding assms(8) using assms(7) by (auto simp: prod_eq_iff)
    from pawn_opponent[OF p g this] show ?thesis unfolding assms(10) by simp
  qed
  have 3: "row_pawn = (link_toward b ?cur change_row \<noteq> None
                          \<and> has_pawn (tile_at b change_row) = opponent player)"
    if p: "pawns_ok b" "player = 1 \<or> player = 2"
  proof (cases "link_toward b ?cur change_row \<noteq> None")
    case False
    then show ?thesis unfolding assms(11) by simp
  next
    case True
    then have g: "in_grid change_row"
      using link_open_neighbour(2)[OF l c, of "(0, row_dir)"] unfolding nr by simp
    have "change_row \<noteq> ?cur" unfolding assms(9) using assms(6) by (auto simp: prod_eq_iff)
    from pawn_opponent[OF p g this] show ?thesis unfolding assms(11) by simp
  qed
  from 1 2 3 show ?thesis by blast
qed

lemma fold_visit_new_set:
  "fold visit_new xs (ps, T) = (ps', T') \<Longrightarrow> set ps' \<subseteq> set ps \<union> set xs"
proof (induction xs arbitrary: ps T)
  case Nil
  then show ?case by simp
next
  case (Cons x xs)
  show ?case
  proof (cases "Obj x \<in> T")
    case True
    with Cons.prems have "fold visit_new xs (ps, T) = (ps', T')" by simp
    from Cons.IH[OF this] show ?thesis by auto
  next
    case False
    with Cons.prems have "fold visit_new xs (ps @ [x], insert (Obj x) T) = (ps', T')" by simp
    from Cons.IH[OF this] show ?thesis by auto
  qed
qed

lemma valid_directions_cases:
  assumes "n \<in> set (get_valid_directions t)"
  shows "north t = Some n \<or> south t = Some n \<or> east t = Some n \<or> west t = Some n"
  using assms unfolding get_valid_directions_def by (auto split: option.splits)

lemma valid_directions_in_grid:
  assumes "links_ok b" "in_grid pos" "n \<in> set (get_valid_directions (tile_at b pos))"
  shows "in_grid n"
  using valid_directions_cases[OF assms(3)] links_okD[OF assms(1,2)] by blast

lemma search_total:
  "grid_shape b \<Longrightarrow> coords_ok b \<Longrightarrow> links_ok b \<Longrightarrow> \<forall>p \<in> set paths. in_grid p \<Longrightarrow>
   search b destination paths paths_taken \<noteq> None"
proof (induction b destination paths paths_taken rule: search.induct)
  case (1 b destination paths_taken)
  then show ?case by simp
next
  case (2 b destination p ps paths_taken)
  have p: "in_grid p" using "2.prems"(4) by simp
  have d: "deref b p = Some (tile_at b p)" by (rule deref_in_grid[OF "2.prems"(1) p])
  have c: "get_board_coord (tile_at b p) = Some p"
    using coords_okD[OF "2.prems"(2) p] by (simp add: get_board_coord_def)
  show ?case
  proof (cases "snd p = destination")
    case True
    then show ?thesis by (simp add: d c)
  next
    case False
    obtain paths' taken' where f:
      "fold visit_new (get_valid_directions (tile_at b p)) (p # ps, paths_taken) = (paths', taken')"
      by (cases "fold visit_new (get_valid_directions (tile_at b p)) (p # ps, paths_taken)")
    from fold_visit_new_measure[OF _ finite_link_targets f, of b]
    have "Obj ` set (get_valid_directions (tile_at b p)) \<subseteq> link_targets b \<Longrightarrow>
          \<exists>ys. paths' = (p # ps) @ ys" by blast
    moreover have "Obj ` set (get_valid_directions (tile_at b p)) \<subseteq> link_targets b"
      using deref_in_board[OF d] by (auto simp: link_targets_def)
    ultimately obtain ys where ys: "paths' = p # (ps @ ys)" by auto
    have "set paths' \<subseteq> set (p # ps) \<union> set (get_valid_directions (tile_at b p))"
      by (rule fold_visit_new_set[OF f])
    then have "\<forall>q \<in> set paths'. in_grid q"
      using "2.prems"(4) valid_directions_in_grid[OF "2.prems"(3) p] by auto
    then have g: "\<forall>q \<in> set (tl paths'). in_grid q" unfolding ys by simp
    from "2.IH"[OF d c False f[symmetric] "2.prems"(1,2,3) g]
    show ?thesis using False by (simp add: d c f)
  qed
qed

lemma fair_play_total:
  assumes "board_inv b"
  shows "fair_play b player \<noteq> None"
proof -
  have g: "grid_shape b" and l: "links_ok b" and co: "coords_ok b"
    and p: "in_grid (player_1 b)" "in_grid (player_2 b)"
    using assms by (simp_all add: board_inv_def)
  let ?pos = "if player = 1 then player_1 b else player_2 b"
  have c: "in_grid ?pos" using p by simp
  have s: "search b d (get_valid_directions (tile_at b ?pos)) T \<noteq> None" for d T
    by (rule search_total[OF g co l]) (use valid_directions_in_grid[OF l c] in blast)
  show ?thesis
    unfolding fair_play_def Let_def get_player_1_def get_player_2_def
    using board_index_in_grid[OF g c] deref_in_grid[OF g c] s
    by (cases "player = 1") simp_all
qed

definition fence_link :: "Board \<Rightarrow> string \<Rightarrow> coord \<Rightarrow> coord option" where
  "fence_link b direction pos =
     (if direction = ''v'' then west (tile_at b pos) else north (tile_at b pos))"

definition border_pos :: "string \<Rightarrow> coord \<Rightarrow> coord" where
  "border_pos direction pos =
     (if direction = ''v'' then (fst pos - 1, snd pos) else (fst pos, snd pos - 1))"

definition fenced :: "Board \<Rightarrow> string \<Rightarrow> coord \<Rightarrow> Board" where
  "fenced b direction pos =
     (if direction = ''v''
      then update_tile (update_tile b pos (close_direction ''west''))
             (border_pos direction pos) (close_direction ''east'')
      else update_tile (update_tile b pos (close_direction ''north''))
             (border_pos direction pos) (close_direction ''south''))"

lemma fenced_shape [simp]: "grid_shape (fenced b direction pos) = grid_shape b"
  by (simp add: fenced_def)

lemma fenced_players [simp]:
  "player_1 (fenced b direction pos) = player_1 b"
  "player_2 (fenced b direction pos) = player_2 b"
  by (simp_all add: fenced_def)

lemma fence_link_border:
  assumes "links_ok b" "in_grid pos" "fence_link b direction pos = Some nb"
  shows "nb = border_pos direction pos" "in_grid nb" "nb \<noteq> pos"
    and "direction = ''v'' \<Longrightarrow> east (tile_at b nb) = Some pos"
    and "direction \<noteq> ''v'' \<Longrightarrow> south (tile_at b nb) = Some pos"
proof -
  note D = links_okD[OF assms(1,2)]
  show "nb = border_pos direction pos"
    using assms(3) D(1)[of nb] D(4)[of nb]
    by (cases "direction = ''v''") (simp_all add: fence_link_def border_pos_def)
  then show "nb \<noteq> pos"
    by (cases "direction = ''v''") (auto simp: border_pos_def prod_eq_iff)
  show "in_grid nb"
    using assms(3) D(1)[of nb] D(4)[of nb]
    by (cases "direction = ''v''") (auto simp: fence_link_def)
  show "direction = ''v'' \<Longrightarrow> east (tile_at b nb) = Some pos"
    using assms(3) D(4)[of nb] by (auto simp: fence_link_def)
  show "direction \<noteq> ''v'' \<Longrightarrow> south (tile_at b nb) = Some pos"
    using assms(3) D(1)[of nb] by (auto simp: fence_link_def)
qed

lemma tile_at_fenced:
  assumes "grid_shape b" "in_grid pos" "in_grid (border_pos direction pos)" "in_grid q"
  shows "tile_at (fenced b direction pos) q =
           (if q = border_pos direction pos
            then (if direction = ''v'' then (tile_at b q)\<lparr>east := None\<rparr>
                  else (tile_at b q)\<lparr>south := None\<rparr>)
            else if q = pos
            then (if direction = ''v'' then (tile_at b q)\<lparr>west := None\<rparr>
                  else (tile_at b q)\<lparr>north := None\<rparr>)
            else tile_at b q)"
proof -
  have "border_pos direction pos \<noteq> pos" by (auto simp: border_pos_def prod_eq_iff)
  with assms show ?thesis
    by (cases "direction = ''v''")
       (simp_all add: fenced_def tile_at_update_tile close_direction_def)
qed

lemma rollback_fenced:
  assumes "grid_shape b" "links_ok b" "in_grid pos" "fence_link b direction pos = Some nb"
  shows "direction = ''v'' \<Longrightarrow>
           update_tile (update_tile (fenced b direction pos) pos (open_direction ''west'' nb))
             nb (open_direction ''east'' pos) = b"
    and "direction \<noteq> ''v'' \<Longrightarrow>
           update_tile (update_tile (fenced b direction pos) pos (open_direction ''north'' nb))
             nb (open_direction ''south'' pos) = b"
proof -
  note B = fence_link_border[OF assms(2,3,4)]
  have nbg: "in_grid (border_pos direction pos)" using B(1,2) by simp
  note t = tile_at_fenced[OF assms(1,3) nbg]
  show "update_tile (update_tile (fenced b direction pos) pos (open_direction ''west'' nb))
             nb (open_direction ''east'' pos) = b" if v: "direction = ''v''"
  proof (rule board_eqI)
    fix q assume q: "in_grid q"
    have w: "west (tile_at b pos) = Some nb" using assms(4) v by (simp add: fence_link_def)
    show "tile_at (update_tile (update_tile (fenced b direction pos) pos
              (open_direction ''west'' nb)) nb (open_direction ''east'' pos)) q = tile_at b q"
      using q assms(1,3) B(2,3) B(1)[symmetric] B(4)[OF v] w v
      by (auto simp: tile_at_update_tile t[unfolded v] open_direction_def)
  qed (simp_all add: assms(1))
  show "update_tile (update_tile (fenced b direction pos) pos (open_direction ''north'' nb))
             nb (open_direction ''south'' pos) = b" if v: "direction \<noteq> ''v''"
  proof (rule board_eqI)
    fix q assume q: "in_grid q"
    have w: "north (tile_at b pos) = Some nb" using assms(4) v by (simp add: fence_link_def)
    show "tile_at (update_tile (update_tile (fenced b direction pos) pos
              (open_direction ''north'' nb)) nb (open_direction ''south'' pos)) q = tile_at b q"
      using q assms(1,3) B(2,3) B(1)[symmetric] B(5)[OF v] w v
      by (auto simp: tile_at_update_tile t open_direction_def)
  qed (simp_all add: assms(1))
qed

lemma fenced_fields:
  assumes "grid_shape b" "in_grid pos" "in_grid (border_pos direction pos)" "in_grid q"
  shows "north (tile_at (fenced b direction pos) q) =
           (if q = pos \<and> direction \<noteq> ''v'' then None else north (tile_at b q))"
    and "south (tile_at (fenced b direction pos) q) =
           (if q = border_pos direction pos \<and> direction \<noteq> ''v'' then None
            else south (tile_at b q))"
    and "east (tile_at (fenced b direction pos) q) =
           (if q = border_pos direction pos \<and> direction = ''v'' then None
            else east (tile_at b q))"
    and "west (tile_at (fenced b direction pos) q) =
           (if q = pos \<and> direction = ''v'' then None else west (tile_at b q))"
    and "has_pawn (tile_at (fenced b direction pos) q) = has_pawn (tile_at b q)"
    and "board_coord (tile_at (fenced b direction pos) q) = board_coord (tile_at b q)"
proof -
  have "border_pos direction pos \<noteq> pos" by (auto simp: border_pos_def prod_eq_iff)
  then show
    "north (tile_at (fenced b direction pos) q) =
           (if q = pos \<and> direction \<noteq> ''v'' then None else north (tile_at b q))"
    "south (tile_at (fenced b direction pos) q) =
           (if q = border_pos direction pos \<and> direction \<noteq> ''v'' then None
            else south (tile_at b q))"
    "east (tile_at (fenced b direction pos) q) =
           (if q = border_pos direction pos \<and> direction = ''v'' then None
            else east (tile_at b q))"
    "west (tile_at (fenced b direction pos) q) =
           (if q = pos \<and> direction = ''v'' then None else west (tile_at b q))"
    "has_pawn (tile_at (fenced b direction pos) q) = has_pawn (tile_at b q)"
    "board_coord (tile_at (fenced b direction pos) q) = board_coord (tile_at b q)"
    unfolding tile_at_fenced[OF assms] by simp_all
qed

lemma links_ok_fenced:
  assumes "grid_shape b" "links_ok b" "in_grid pos" "fence_link b direction pos = Some nb"
  shows "links_ok (fenced b direction pos)"
proof (rule links_okI)
  note B = fence_link_border[OF assms(2,3,4)]
  have nbg: "in_grid (border_pos direction pos)" using B(1,2) by simp
  note F = fenced_fields[OF assms(1,3) nbg]
  note e = B(4)[unfolded B(1)] and s = B(5)[unfolded B(1)]
  {
    fix q n assume q: "in_grid q" and a: "north (tile_at (fenced b direction pos) q) = Some n"
    from a have o: "north (tile_at b q) = Some n" and x: "\<not> (q = pos \<and> direction \<noteq> ''v'')"
      unfolding F(1)[OF q] by (simp_all split: if_splits)
    note D = links_okD(1)[OF assms(2) q o]
    from D have n: "in_grid n" by blast
    have "south (tile_at (fenced b direction pos) n) = Some q"
    proof (cases "n = border_pos direction pos \<and> direction \<noteq> ''v''")
      case True
      then have "south (tile_at b n) = Some pos" using s by simp
      moreover have "south (tile_at b n) = Some q" using D by blast
      ultimately have "q = pos" by simp
      with True x show ?thesis by simp
    next
      case False
      moreover have "south (tile_at b n) = Some q" using D by blast
      ultimately show ?thesis unfolding F(2)[OF n] by simp
    qed
    with D show "n = (fst q, snd q - 1) \<and> in_grid n \<and>
        south (tile_at (fenced b direction pos) n) = Some q" by blast
  next
    fix q n assume q: "in_grid q" and a: "south (tile_at (fenced b direction pos) q) = Some n"
    from a have o: "south (tile_at b q) = Some n"
      and x: "\<not> (q = border_pos direction pos \<and> direction \<noteq> ''v'')"
      unfolding F(2)[OF q] by (simp_all split: if_splits)
    note D = links_okD(2)[OF assms(2) q o]
    from D have n: "in_grid n" by blast
    have "north (tile_at (fenced b direction pos) n) = Some q"
    proof (cases "n = pos \<and> direction \<noteq> ''v''")
      case True
      then have "north (tile_at b n) = Some (border_pos direction pos)"
        using assms(4) B(1) by (simp add: fence_link_def)
      moreover have "north (tile_at b n) = Some q" using D by blast
      ultimately have "q = border_pos direction pos" by simp
      with True x show ?thesis by simp
    next
      case False
      moreover have "north (tile_at b n) = Some q" using D by blast
      ultimately show ?thesis unfolding F(1)[OF n] by simp
    qed
    with D show "n = (fst q, snd q + 1) \<and> in_grid n \<and>
        north (tile_at (fenced b direction pos) n) = Some q" by blast
  next
    fix q n assume q: "in_grid q" and a: "east (tile_at (fenced b direction pos) q) = Some n"
    from a have o: "east (tile_at b q) = Some n"
      and x: "\<not> (q = border_pos direction pos \<and> direction = ''v'')"
      unfolding F(3)[OF q] by (simp_all split: if_splits)
    note D = links_okD(3)[OF assms(2) q o]
    from D have n: "in_grid n" by blast
    have "west (tile_at (fenced b direction pos) n) = Some q"
    proof (cases "n = pos \<and> direction = ''v''")
      case True
      then have "west (tile_at b n) = Some (border_pos direction pos)"
        using assms(4) B(1) by (simp add: fence_link_def)
      moreover have "west (tile_at b n) = Some q" using D by blast
      ultimately have "q = border_pos direction pos" by simp
      with True x show ?thesis by simp
    next
      case False
      moreover have "west (tile_at b n) = Some q" using D by blast
      ultimately show ?thesis unfolding F(4)[OF n] by simp
    qed
    with D show "n = (fst q + 1, snd q) \<and> in_grid n \<and>
        west (tile_at (fenced b direction pos) n) = Some q" by blast
  next
    fix q n assume q: "in_grid q" and a: "west (tile_at (fenced b direction pos) q) = Some n"
    from a have o: "west (tile_at b q) = Some n" and x: "\<not> (q = pos \<and> direction = ''v'')"
      unfolding F(4)[OF q] by (simp_all split: if_splits)
    note D = links_okD(4)[OF assms(2) q o]
    from D have n: "in_grid n" by blast
    have "east (tile_at (fenced b direction pos) n) = Some q"
    proof (cases "n = border_pos direction pos \<and> direction = ''v''")
      case True
      then have "east (tile_at b n) = Some pos" using e by simp
      moreover have "east (tile_at b n) = Some q" using D by blast
      ultimately have "q = pos" by simp
      with True x show ?thesis by simp
    next
      case False
      moreover have "east (tile_at b n) = Some q" using D by blast
      ultimately show ?thesis unfolding F(3)[OF n] by simp
    qed
    with D show "n = (fst q - 1, snd q) \<and> in_grid n \<and>
        east (tile_at (fenced b direction pos) n) = Some q" by blast
  }
qed

lemma board_inv_fenced:
  assumes "board_inv b" "in_grid pos" "fence_link b direction pos = Some nb"
  shows "board_inv (fenced b direction pos)"
proof -
  have g: "grid_shape b" and l: "links_ok b" and co: "coords_ok b"
    and p: "in_grid (player_1 b)" "in_grid (player_2 b)"
    using assms(1) by (simp_all add: board_inv_def)
  note B = fence_link_border[OF l assms(2,3)]
  have nbg: "in_grid (border_pos direction pos)" using B(1,2) by simp
  have "coords_ok (fenced b direction pos)"
    unfolding coords_ok_def ball_grid_coords
    using coords_okD[OF co] by (simp add: fenced_fields(6)[OF g assms(2) nbg])
  with links_ok_fenced[OF g l assms(2,3)] g p show ?thesis
    by (simp add: board_inv_def)
qed

lemma place_fence_in_direction_closed:
  assumes "grid_shape b" "links_ok b" "in_grid pos"
    and "direction = ''v'' \<or> direction = ''h''"
    and "fence_link b direction pos = None"
  shows "place_fence_in_direction b direction pos = Some (PyBool False, b)"
  using assms(4,5) deref_in_grid[OF assms(1,3)]
  by (auto simp: place_fence_in_direction_def fence_link_def get_direction_def)

lemma place_fence_in_direction_open:
  assumes "grid_shape b" "links_ok b" "in_grid pos"
    and "direction = ''v'' \<or> direction = ''h''"
    and "fence_link b direction pos = Some nb"
    and "fair_play (fenced b direction pos) 1 = Some fair_1"
    and "fair_play (fenced b direction pos) 2 = Some fair_2"
  shows "place_fence_in_direction b direction pos =
           Some (if fair_1 \<and> fair_2 then (PyBool True, fenced b direction pos)
                 else (PyStr ''breaks the fair play rule'', b))"
proof -
  note B = fence_link_border[OF assms(2,3,5)]
  note R = rollback_fenced[OF assms(1,2,3,5)]
  note d = deref_in_grid[OF assms(1,3)] deref_in_grid[OF assms(1) B(2)]
  show ?thesis
  proof (cases "direction = ''v''")
    case True
    have w: "get_direction (tile_at b pos) (- 1, 0) = Some nb"
      using assms(5) True by (simp add: fence_link_def get_direction_def)
    have c: "update_tile (update_tile b pos (close_direction ''west'')) nb
               (close_direction ''east'') = fenced b direction pos"
      using True B(1) by (simp add: fenced_def)
    show ?thesis
      unfolding place_fence_in_direction_def if_P[OF True] Let_def
      by (simp add: d w c R(1)[OF True] assms(6,7))
  next
    case False
    then have h: "direction = ''h''" using assms(4) by simp
    have w: "get_direction (tile_at b pos) (0, - 1) = Some nb"
      using assms(5) False by (simp add: fence_link_def get_direction_def)
    have c: "update_tile (update_tile b pos (close_direction ''north'')) nb
               (close_direction ''south'') = fenced b direction pos"
      using False B(1) by (simp add: fenced_def)
    show ?thesis
      unfolding place_fence_in_direction_def if_not_P[OF False] if_P[OF h] Let_def
      by (simp add: d w c R(2)[OF False] assms(6,7))
  qed
qed

lemma place_fence_rejected:
  "\<not> (direction = ''v'' \<or> direction = ''h'') \<or> \<not> in_grid position \<Longrightarrow>
   place_fence b direction position = Some (PyBool False, b)"
  by (auto simp: place_fence_def in_grid_def)

lemma place_fence_inv:
  assumes "board_inv b" "direction = ''v'' \<or> direction = ''h''" "in_grid pos"
  shows "fence_link b direction pos = None \<Longrightarrow>
           place_fence b direction pos = Some (PyBool False, b)"
    and "fence_link b direction pos \<noteq> None \<Longrightarrow>
           fair_play (fenced b direction pos) 1 \<noteq> None \<and>
           fair_play (fenced b direction pos) 2 \<noteq> None \<and>
           place_fence b direction pos =
             Some (if fair_play (fenced b direction pos) 1 = Some True
                      \<and> fair_play (fenced b direction pos) 2 = Some True
                   then (PyBool True, fenced b direction pos)
                   else (PyStr ''breaks the fair play rule'', b))"
proof -
  have g: "grid_shape b" and l: "links_ok b" using assms(1) by (simp_all add: board_inv_def)
  have p: "place_fence b direction pos = place_fence_in_direction b direction pos"
    using assms(2,3) board_index_in_grid[OF g assms(3)]
    by (simp add: place_fence_def in_grid_def)
  show "place_fence b direction pos = Some (PyBool False, b)"
    if "fence_link b direction pos = None"
    unfolding p by (rule place_fence_in_direction_closed[OF g l assms(3,2) that])
  show "fair_play (fenced b direction pos) 1 \<noteq> None \<and>
           fair_play (fenced b direction pos) 2 \<noteq> None \<and>
           place_fence b direction pos =
             Some (if fair_play (fenced b direction pos) 1 = Some True
                      \<and> fair_play (fenced b direction pos) 2 = Some True
                   then (PyBool True, fenced b direction pos)
                   else (PyStr ''breaks the fair play rule'', b))"
    if "fence_link b direction pos \<noteq> None"
  proof -
    from that obtain nb where nb: "fence_link b direction pos = Some nb" by blast
    note i = board_inv_fenced[OF assms(1,3) nb]
    from fair_play_total[OF i, of 1] obtain f1
      where f1: "fair_play (fenced b direction pos) 1 = Some f1" by blast
    from fair_play_total[OF i, of 2] obtain f2
      where f2: "fair_play (fenced b direction pos) 2 = Some f2" by blast
    show ?thesis
      unfolding p place_fence_in_direction_open[OF g l assms(3,2) nb f1 f2] f1 f2
      by simp
  qed
qed

definition linked :: "Board \<Rightarrow> (coord \<times> coord) set" where
  "linked b = {(p, q). in_grid p \<and> q \<in> set (get_valid_directions (tile_at b p))}"

definition goal_row :: "int \<Rightarrow> int" where
  "goal_row player = (if player = 1 then 8 else 0)"

definition has_route :: "Board \<Rightarrow> int \<Rightarrow> bool" where
  "has_route b player =
     (\<exists>q. (current_pos b player, q) \<in> (linked b)\<^sup>+ \<and> snd q = goal_row player)"

lemma fold_visit_new_result:
  "fold visit_new xs (ps, T) = (ps', T') \<Longrightarrow>
   T' = T \<union> Obj ` set xs \<and> (\<exists>ys. ps' = ps @ ys \<and> set ys = {x \<in> set xs. Obj x \<notin> T})"
proof (induction xs arbitrary: ps T)
  case Nil
  then show ?case by simp
next
  case (Cons x xs)
  show ?case
  proof (cases "Obj x \<in> T")
    case True
    with Cons.prems have "fold visit_new xs (ps, T) = (ps', T')" by simp
    from Cons.IH[OF this] obtain ys where
      ys: "T' = T \<union> Obj ` set xs" "ps' = ps @ ys" "set ys = {x \<in> set xs. Obj x \<notin> T}"
      by blast
    have "T' = T \<union> Obj ` set (x # xs)" using ys(1) True by auto
    moreover have "set ys = {y \<in> set (x # xs). Obj y \<notin> T}" using ys(3) True by auto
    ultimately show ?thesis using ys(2) by blast
  next
    case False
    with Cons.prems have "fold visit_new xs (ps @ [x], insert (Obj x) T) = (ps', T')" by simp
    from Cons.IH[OF this] obtain ys where
      ys: "T' = insert (Obj x) T \<union> Obj ` set xs" "ps' = (ps @ [x]) @ ys"
        "set ys = {y \<in> set xs. Obj y \<notin> insert (Obj x) T}"
      by blast
    have "T' = T \<union> Obj ` set (x # xs)" using ys(1) by auto
    moreover have "ps' = ps @ (x # ys)" using ys(2) by simp
    moreover have "set (x # ys) = {y \<in> set (x # xs). Obj y \<notin> T}" using ys(3) False by auto
    ultimately show ?thesis by blast
  qed
qed

lemma search_correct:
  "grid_shape b \<Longrightarrow> coords_ok b \<Longrightarrow> links_ok b \<Longrightarrow>
   \<forall>q. Obj q \<in> taken \<longrightarrow> in_grid q \<Longrightarrow>
   \<forall>p \<in> set paths. Obj p \<in> taken \<Longrightarrow>
   \<forall>q. Obj q \<in> taken \<and> q \<notin> set paths \<longrightarrow>
      snd q \<noteq> destination \<and> (\<forall>n \<in> set (get_valid_directions (tile_at b q)). Obj n \<in> taken) \<Longrightarrow>
   search b destination paths taken =
     Some (\<exists>q v. snd q = destination \<and> Obj v \<in> taken \<and> (v, q) \<in> (linked b)\<^sup>*)"
proof (induction b destination paths taken rule: search.induct)
  case (1 b destination taken)
  have closed: "Obj q \<in> taken" if "Obj v \<in> taken" "(v, q) \<in> (linked b)\<^sup>*" for v q
    using that(2,1)
  proof (induction rule: rtrancl_induct)
    case base
    then show ?case .
  next
    case (step y z)
    then have "Obj y \<in> taken" by simp
    moreover have "z \<in> set (get_valid_directions (tile_at b y))"
      using step.hyps(2) by (simp add: linked_def)
    ultimately show ?case using "1.prems"(6) by (metis empty_iff empty_set)
  qed
  have "(\<exists>q v. snd q = destination \<and> Obj v \<in> taken \<and> (v, q) \<in> (linked b)\<^sup>*) = False"
    using closed "1.prems"(6) by (metis empty_iff empty_set)
  then show ?case by (simp only: search.simps(1))
next
  case (2 b destination p ps taken)
  have pt: "Obj p \<in> taken" using "2.prems"(5) by simp
  then have p: "in_grid p" using "2.prems"(4) by blast
  have d: "deref b p = Some (tile_at b p)" by (rule deref_in_grid[OF "2.prems"(1) p])
  have c: "get_board_coord (tile_at b p) = Some p"
    using coords_okD[OF "2.prems"(2) p] by (simp add: get_board_coord_def)
  show ?case
  proof (cases "snd p = destination")
    case True
    have e: "(\<exists>q v. snd q = destination \<and> Obj v \<in> taken \<and> (v, q) \<in> (linked b)\<^sup>*) = True"
      using True pt by blast
    have step: "search b destination (p # ps) taken = Some True"
      using True by (simp add: d c)
    show ?thesis unfolding step e ..
  next
    case False
    let ?new = "get_valid_directions (tile_at b p)"
    obtain paths' taken' where f: "fold visit_new ?new (p # ps, taken) = (paths', taken')"
      by (cases "fold visit_new ?new (p # ps, taken)")
    from fold_visit_new_result[OF f] obtain ys where
      t': "taken' = taken \<union> Obj ` set ?new" and
      ys: "paths' = (p # ps) @ ys" "set ys = {x \<in> set ?new. Obj x \<notin> taken}"
      by blast
    have tl: "tl paths' = ps @ ys" using ys(1) by simp
    have i4: "\<forall>q. Obj q \<in> taken' \<longrightarrow> in_grid q"
      using "2.prems"(4) valid_directions_in_grid[OF "2.prems"(3) p] unfolding t' by auto
    have i5: "\<forall>q \<in> set (tl paths'). Obj q \<in> taken'"
      using "2.prems"(5) ys(2) unfolding tl t' by auto
    have i6: "\<forall>q. Obj q \<in> taken' \<and> q \<notin> set (tl paths') \<longrightarrow>
        snd q \<noteq> destination \<and>
        (\<forall>n \<in> set (get_valid_directions (tile_at b q)). Obj n \<in> taken')"
    proof (intro allI impI)
      fix q assume q: "Obj q \<in> taken' \<and> q \<notin> set (tl paths')"
      then have nq: "q \<notin> set ps" "q \<notin> set ys" unfolding tl by simp_all
      have qt: "Obj q \<in> taken" using q nq(2) ys(2) unfolding t' by auto
      show "snd q \<noteq> destination \<and>
        (\<forall>n \<in> set (get_valid_directions (tile_at b q)). Obj n \<in> taken')"
      proof (cases "q = p")
        case True
        then show ?thesis using False unfolding t' by simp
      next
        case qp: False
        then have "q \<notin> set (p # ps)" using nq(1) by simp
        with qt "2.prems"(6) have "snd q \<noteq> destination \<and>
            (\<forall>n \<in> set (get_valid_directions (tile_at b q)). Obj n \<in> taken)"
          by blast
        then show ?thesis unfolding t' by blast
      qed
    qed
    have same: "(\<exists>q v. snd q = destination \<and> Obj v \<in> taken' \<and> (v, q) \<in> (linked b)\<^sup>*) =
                (\<exists>q v. snd q = destination \<and> Obj v \<in> taken \<and> (v, q) \<in> (linked b)\<^sup>*)"
    proof
      assume "\<exists>q v. snd q = destination \<and> Obj v \<in> taken' \<and> (v, q) \<in> (linked b)\<^sup>*"
      then obtain q v where qv: "snd q = destination" "Obj v \<in> taken'" "(v, q) \<in> (linked b)\<^sup>*"
        by blast
      show "\<exists>q v. snd q = destination \<and> Obj v \<in> taken \<and> (v, q) \<in> (linked b)\<^sup>*"
      proof (cases "Obj v \<in> taken")
        case True
        with qv show ?thesis by blast
      next
        case False
        then have "v \<in> set ?new" using qv(2) unfolding t' by auto
        then have "(p, v) \<in> linked b" using p by (simp add: linked_def)
        then have "(p, q) \<in> (linked b)\<^sup>*" using qv(3) by (rule converse_rtrancl_into_rtrancl)
        with qv(1) pt show ?thesis by blast
      qed
    next
      assume "\<exists>q v. snd q = destination \<and> Obj v \<in> taken \<and> (v, q) \<in> (linked b)\<^sup>*"
      then show "\<exists>q v. snd q = destination \<and> Obj v \<in> taken' \<and> (v, q) \<in> (linked b)\<^sup>*"
        unfolding t' by blast
    qed
    have step: "search b destination (p # ps) taken = search b destination (tl paths') taken'"
      using False by (simp add: d c f)
    show ?thesis
      unfolding step same[symmetric]
      by (rule "2.IH"[OF d c False f[symmetric] "2.prems"(1,2,3) i4 i5 i6])
  qed
qed

lemma fold_insert_objs: "fold (\<lambda>path s. insert (Obj path) s) xs T = T \<union> Obj ` set xs"
  by (induction xs arbitrary: T) auto

lemma fair_play_inv:
  assumes "board_inv b"
  shows "fair_play b player = Some (has_route b player)"
proof -
  have g: "grid_shape b" and l: "links_ok b" and co: "coords_ok b"
    and p: "in_grid (player_1 b)" "in_grid (player_2 b)"
    using assms by (simp_all add: board_inv_def)
  let ?pos = "current_pos b player"
  let ?new = "get_valid_directions (tile_at b ?pos)"
  let ?T = "{Pos ?pos} \<union> Obj ` set ?new"
  have c: "in_grid ?pos" using p by (simp add: current_pos_def)
  have s: "search b (goal_row player) ?new ?T =
    Some (\<exists>q v. snd q = goal_row player \<and> Obj v \<in> ?T \<and> (v, q) \<in> (linked b)\<^sup>*)"
    by (rule search_correct[OF g co l])
       (use valid_directions_in_grid[OF l c] in auto)
  have r: "(\<exists>q v. snd q = goal_row player \<and> Obj v \<in> ?T \<and> (v, q) \<in> (linked b)\<^sup>*) =
           has_route b player"
  proof -
    have "(?pos, q) \<in> (linked b)\<^sup>+ \<longleftrightarrow> (\<exists>v. Obj v \<in> ?T \<and> (v, q) \<in> (linked b)\<^sup>*)" for q
    proof
      assume "(?pos, q) \<in> (linked b)\<^sup>+"
      then obtain v where v: "(?pos, v) \<in> linked b" "(v, q) \<in> (linked b)\<^sup>*"
        by (meson tranclD)
      from v(1) have "Obj v \<in> ?T" by (simp add: linked_def)
      with v(2) show "\<exists>v. Obj v \<in> ?T \<and> (v, q) \<in> (linked b)\<^sup>*"
        by blast
    next
      assume "\<exists>v. Obj v \<in> ?T \<and> (v, q) \<in> (linked b)\<^sup>*"
      then obtain v where v: "v \<in> set ?new" "(v, q) \<in> (linked b)\<^sup>*" by auto
      then have "(?pos, v) \<in> linked b" using c by (simp add: linked_def)
      from this v(2) show "(?pos, q) \<in> (linked b)\<^sup>+" by (rule rtrancl_into_trancl2)
    qed
    then show ?thesis unfolding has_route_def by blast
  qed
  have fp: "fair_play b player = search b (goal_row player) ?new ?T"
    unfolding fair_play_def Let_def get_player_1_def get_player_2_def
    using board_index_in_grid[OF g c] deref_in_grid[OF g c]
    by (simp add: current_pos_def goal_row_def fold_insert_objs)
  show ?thesis unfolding fp s r ..
qed

text \<open>
  Two boards for the examples of section 8 of the specification: player 1 at \<open>(4, 4)\<close> with
  player 2 next to it at \<open>(4, 5)\<close>, without fences, and the same board with a fence between
  \<open>(4, 5)\<close> and \<open>(4, 6)\<close>.
\<close>

definition face_to_face :: Board where
  "face_to_face = moved (moved Board_init 1 (4, 4)) 2 (4, 5)"

definition fence_behind :: Board where
  "fence_behind = fenced face_to_face ''h'' (4, 6)"

lemma face_to_face_inv: "board_inv face_to_face"
  unfolding face_to_face_def
  by (intro board_inv_moved Board_init_inv) (simp_all add: in_grid_def)

lemma face_to_face_players:
  "player_1 face_to_face = (4, 4)" "player_2 face_to_face = (4, 5)"
  by (simp_all add: face_to_face_def moved_players)

lemma face_to_face_tile:
  assumes "in_grid pos"
  shows "tile_at face_to_face pos =
           (init_tile pos)\<lparr>has_pawn := (if pos = (4, 4) then 1 else if pos = (4, 5) then 2 else 0)\<rparr>"
proof -
  have g: "in_grid (4, 0)" "in_grid (4, 8)" "in_grid (4, 4)" "in_grid (4, 5)"
    by (simp_all add: in_grid_def)
  have c1: "current_pos Board_init 1 = (4, 0)"
    by (simp add: current_pos_def Board_init_players)
  have c2: "current_pos (moved Board_init 1 (4, 4)) 2 = (4, 8)"
    by (simp add: current_pos_def moved_players Board_init_players)
  have t1: "tile_at (moved Board_init 1 (4, 4)) q =
      (if q = (4, 4) then (init_tile q)\<lparr>has_pawn := 1\<rparr>
       else if q = (4, 0) then (init_tile q)\<lparr>has_pawn := 0\<rparr> else init_tile q)"
    if "in_grid q" for q
    using tile_at_moved[OF Board_init_shape, of 1 "(4, 4)" q] that g
    by (simp add: c1 Board_init_tile)
  have s1: "grid_shape (moved Board_init 1 (4, 4))" by (simp add: Board_init_shape)
  show ?thesis
    unfolding face_to_face_def
    using tile_at_moved[OF s1, of 2 "(4, 5)" pos] assms g
    by (auto simp: c2 t1 init_tile_def)
qed

lemma face_to_face_pawns: "pawns_ok face_to_face"
  unfolding pawns_ok_def ball_grid_coords
  by (simp add: face_to_face_players face_to_face_tile)

lemma fence_behind_link: "fence_link face_to_face ''h'' (4, 6) = Some (4, 5)"
  by (simp add: fence_link_def face_to_face_tile in_grid_def init_tile_def)

lemma fence_behind_inv: "board_inv fence_behind"
  unfolding fence_behind_def
  by (rule board_inv_fenced[OF face_to_face_inv _ fence_behind_link]) (simp add: in_grid_def)

lemma fence_behind_players:
  "player_1 fence_behind = (4, 4)" "player_2 fence_behind = (4, 5)"
  by (simp_all add: fence_behind_def face_to_face_players)

lemma fence_behind_tile:
  assumes "in_grid pos"
  shows "tile_at fence_behind pos =
           (if pos = (4, 5) then (tile_at face_to_face pos)\<lparr>south := None\<rparr>
            else if pos = (4, 6) then (tile_at face_to_face pos)\<lparr>north := None\<rparr>
            else tile_at face_to_face pos)"
proof -
  have g: "grid_shape face_to_face" using face_to_face_inv by (simp add: board_inv_def)
  show ?thesis
    unfolding fence_behind_def
    using tile_at_fenced[OF g, of "(4, 6)" "''h''" pos] assms
    by (simp add: border_pos_def in_grid_def)
qed

lemma fence_behind_pawns: "pawns_ok fence_behind"
  unfolding pawns_ok_def ball_grid_coords
  by (simp add: fence_behind_players fence_behind_tile face_to_face_tile)

theorem jump_move_iff_witness:
  "board_inv face_to_face \<and> pawns_ok face_to_face \<and> in_grid (4, 6) \<and>
   has_pawn (tile_at face_to_face (4, 6)) = 0 \<and> current_pos face_to_face 1 = (4, 4) \<and>
   neighbour (4, 4) (0, 2) = (4, 5) \<and>
   has_pawn (tile_at face_to_face (4, 5)) = opponent 1 \<and>
   move_pawn face_to_face 1 (4, 6) = Some (True, moved face_to_face 1 (4, 6)) \<and>
   board_inv fence_behind \<and> has_pawn (tile_at fence_behind (4, 6)) = 0 \<and>
   link_toward fence_behind (4, 5) (4, 6) = None \<and>
   move_pawn fence_behind 1 (4, 6) = Some (False, fence_behind)"
proof -
  have g: "in_grid (4, 6)" "in_grid (4, 5)" "in_grid (4, 4)" by (simp_all add: in_grid_def)
  have c: "current_pos face_to_face 1 = (4, 4)" "current_pos fence_behind 1 = (4, 4)"
    by (simp_all add: current_pos_def face_to_face_players fence_behind_players)
  have n: "neighbour (4, 4) (0, 2) = (4, 5)" by (simp add: neighbour_def step_def)
  have f: "has_pawn (tile_at face_to_face (4, 6)) = 0" "has_pawn (tile_at fence_behind (4, 6)) = 0"
    "has_pawn (tile_at face_to_face (4, 5)) = 2" "has_pawn (tile_at fence_behind (4, 5)) = 2"
    by (simp_all add: fence_behind_tile face_to_face_tile g)
  have k: "link_toward face_to_face (4, 4) (4, 5) = Some (4, 5)"
    "link_toward face_to_face (4, 5) (4, 6) = Some (4, 6)"
    "link_toward fence_behind (4, 4) (4, 5) = Some (4, 5)"
    "link_toward fence_behind (4, 5) (4, 6) = None"
    by (simp_all add: link_toward_def fence_behind_tile face_to_face_tile g init_tile_def
        get_direction_def)
  have 1: "move_pawn face_to_face 1 (4, 6) = Some (True, moved face_to_face 1 (4, 6))"
    using jump_move_iff[OF face_to_face_inv g(1) f(1), of 1 "(4, 5)" True]
    by (simp add: c n k f)
  have 2: "move_pawn fence_behind 1 (4, 6) = Some (False, fence_behind)"
    using jump_move_iff[OF fence_behind_inv g(1) f(2), of 1 "(4, 5)" False]
    by (simp add: c n k f)
  show ?thesis
    using 1 2 face_to_face_inv face_to_face_pawns fence_behind_inv g c n f k
    by (simp add: opponent_def)
qed

theorem diagonal_move_iff_witness:
  "board_inv fence_behind \<and> pawns_ok fence_behind \<and> in_grid (3, 5) \<and> in_grid (5, 5) \<and>
   has_pawn (tile_at fence_behind (3, 5)) = 0 \<and> has_pawn (tile_at fence_behind (5, 5)) = 0 \<and>
   current_pos fence_behind 1 = (4, 4) \<and>
   has_pawn (tile_at fence_behind (4, 5)) = opponent 1 \<and>
   move_pawn fence_behind 1 (3, 5) = Some (True, moved fence_behind 1 (3, 5)) \<and>
   move_pawn fence_behind 1 (5, 5) = Some (True, moved fence_behind 1 (5, 5)) \<and>
   move_pawn face_to_face 1 (3, 5) = Some (False, face_to_face)"
proof -
  have g: "in_grid (3, 5)" "in_grid (5, 5)" "in_grid (4, 5)" "in_grid (4, 4)" "in_grid (3, 4)"
    "in_grid (5, 4)" "in_grid (4, 6)"
    by (simp_all add: in_grid_def)
  have c: "current_pos face_to_face 1 = (4, 4)" "current_pos fence_behind 1 = (4, 4)"
    by (simp_all add: current_pos_def face_to_face_players fence_behind_players)
  have f: "has_pawn (tile_at fence_behind (3, 5)) = 0" "has_pawn (tile_at fence_behind (5, 5)) = 0"
    "has_pawn (tile_at face_to_face (3, 5)) = 0"
    "has_pawn (tile_at fence_behind (4, 5)) = 2" "has_pawn (tile_at face_to_face (4, 5)) = 2"
    "has_pawn (tile_at fence_behind (3, 4)) = 0" "has_pawn (tile_at fence_behind (5, 4)) = 0"
    "has_pawn (tile_at face_to_face (3, 4)) = 0"
    by (simp_all add: fence_behind_tile face_to_face_tile g)
  have k: "link_toward fence_behind (4, 4) (4, 5) = Some (4, 5)"
    "link_toward fence_behind (4, 5) (4, 6) = None"
    "link_toward fence_behind (4, 5) (3, 5) = Some (3, 5)"
    "link_toward fence_behind (4, 5) (5, 5) = Some (5, 5)"
    "link_toward face_to_face (4, 4) (4, 5) = Some (4, 5)"
    "link_toward face_to_face (4, 5) (4, 6) = Some (4, 6)"
    by (simp_all add: link_toward_def fence_behind_tile face_to_face_tile g init_tile_def
        get_direction_def)
  have 1: "move_pawn fence_behind 1 (3, 5) = Some (True, moved fence_behind 1 (3, 5))"
    using diagonal_move_iff[OF fence_behind_inv g(1) f(1), of 1 1 "- 1" "(3, 4)" "(4, 5)"
        False True False True]
    by (simp add: c k f)
  have 2: "move_pawn fence_behind 1 (5, 5) = Some (True, moved fence_behind 1 (5, 5))"
    using diagonal_move_iff[OF fence_behind_inv g(2) f(2), of 1 1 1 "(5, 4)" "(4, 5)"
        False True False True]
    by (simp add: c k f)
  have 3: "move_pawn face_to_face 1 (3, 5) = Some (False, face_to_face)"
    using diagonal_move_iff[OF face_to_face_inv g(1) f(3), of 1 1 "- 1" "(3, 4)" "(4, 5)"
        False True False False]
    by (simp add: c k f)
  show ?thesis
    using 1 2 3 fence_behind_inv fence_behind_pawns g c f
    by (simp add: opponent_def)
qed

text \<open>
  The boards a caller can produce: the initial board, and the board left by any further call
  of \<open>move_pawn\<close> or \<open>place_fence\<close> that returns, with any arguments. \<open>played\<close> restricts the
  player argument to the two players of the interface.
\<close>

inductive reachable :: "Board \<Rightarrow> bool" where
  init: "reachable Board_init"
| move: "reachable b \<Longrightarrow> move_pawn b player new_pos = Some (res, b') \<Longrightarrow> reachable b'"
| fence: "reachable b \<Longrightarrow> place_fence b direction position = Some (out, b') \<Longrightarrow> reachable b'"

inductive played :: "Board \<Rightarrow> bool" where
  init: "played Board_init"
| move: "played b \<Longrightarrow> player = 1 \<or> player = 2 \<Longrightarrow>
         move_pawn b player new_pos = Some (res, b') \<Longrightarrow> played b'"
| fence: "played b \<Longrightarrow> place_fence b direction position = Some (out, b') \<Longrightarrow> played b'"

lemma move_pawn_cases:
  assumes "board_inv b" "move_pawn b player new_pos = Some (res, b')"
  shows "(\<not> res \<and> b' = b \<and> \<not> move_ok b player new_pos) \<or>
         (res \<and> b' = moved b player new_pos \<and> move_ok b player new_pos)"
  using assms(2) unfolding move_pawn_inv[OF assms(1)] by auto

lemma place_fence_cases:
  assumes "board_inv b" "place_fence b direction position = Some (out, b')"
  shows "((out = PyBool False \<or> out = PyStr ''breaks the fair play rule'') \<and> b' = b) \<or>
         (out = PyBool True \<and> b' = fenced b direction position \<and>
          (direction = ''v'' \<or> direction = ''h'') \<and> in_grid position \<and>
          fence_link b direction position \<noteq> None)"
proof (cases "(direction = ''v'' \<or> direction = ''h'') \<and> in_grid position")
  case False
  then have "place_fence b direction position = Some (PyBool False, b)"
    by (intro place_fence_rejected) blast
  with assms(2) show ?thesis by simp
next
  case True
  then have v: "direction = ''v'' \<or> direction = ''h''" and g: "in_grid position" by simp_all
  show ?thesis
  proof (cases "fence_link b direction position = None")
    case n: True
    from place_fence_inv(1)[OF assms(1) v g n] assms(2) show ?thesis by simp
  next
    case n: False
    from place_fence_inv(2)[OF assms(1) v g n] assms(2) True n show ?thesis
      by (auto split: if_splits)
  qed
qed

lemma move_ok_in_grid: "move_ok b player new_pos \<Longrightarrow> in_grid new_pos"
  by (simp add: move_ok_def Let_def)

lemma move_ok_free: "move_ok b player new_pos \<Longrightarrow> has_pawn (tile_at b new_pos) = 0"
  by (simp add: move_ok_def Let_def)

lemma reachable_inv: "reachable b \<Longrightarrow> board_inv b"
proof (induction rule: reachable.induct)
  case init
  show ?case by (rule Board_init_inv)
next
  case (move b player new_pos res b')
  from move_pawn_cases[OF move.IH move.hyps(2)] show ?case
    using move.IH board_inv_moved[OF move.IH move_ok_in_grid] by blast
next
  case (fence b direction position out b')
  from place_fence_cases[OF fence.IH fence.hyps(2)] show ?case
    using fence.IH board_inv_fenced[OF fence.IH] by blast
qed

lemma played_reachable: "played b \<Longrightarrow> reachable b"
  by (induction rule: played.induct) (auto intro: reachable.intros)

lemma pawns_ok_fenced:
  assumes "board_inv b" "pawns_ok b" "in_grid pos" "fence_link b direction pos \<noteq> None"
  shows "pawns_ok (fenced b direction pos)"
proof -
  have g: "grid_shape b" and l: "links_ok b" using assms(1) by (simp_all add: board_inv_def)
  from assms(4) obtain nb where nb: "fence_link b direction pos = Some nb" by blast
  note B = fence_link_border[OF l assms(3) nb]
  have nbg: "in_grid (border_pos direction pos)" using B(1,2) by simp
  show ?thesis
    using assms(2) unfolding pawns_ok_def ball_grid_coords
    by (simp add: fenced_fields(5)[OF g assms(3) nbg])
qed

lemma played_pawns: "played b \<Longrightarrow> pawns_ok b"
proof (induction rule: played.induct)
  case init
  show ?case by (rule Board_init_pawns)
next
  case (move b player new_pos res b')
  note i = reachable_inv[OF played_reachable[OF move.hyps(1)]]
  from move_pawn_cases[OF i move.hyps(3)] show ?case
    using move.IH pawns_ok_moved[OF i move.IH move.hyps(2) move_ok_in_grid move_ok_free]
    by blast
next
  case (fence b direction position out b')
  note i = reachable_inv[OF played_reachable[OF fence.hyps(1)]]
  from place_fence_cases[OF i fence.hyps(2)] show ?case
    using fence.IH pawns_ok_fenced[OF i fence.IH] by blast
qed

lemma step_unit:
  "(\<bar>row_dir\<bar> = 1 \<and> col_dir = 0) \<or> (row_dir = 0 \<and> \<bar>col_dir\<bar> = 1) \<Longrightarrow>
   step (col_dir, row_dir) = (col_dir, row_dir)"
  by (auto simp: step_def)

lemma link_back:
  assumes "links_ok b" "in_grid A"
    and "(\<bar>snd B - snd A\<bar> = 1 \<and> fst B - fst A = 0) \<or> (snd B - snd A = 0 \<and> \<bar>fst B - fst A\<bar> = 1)"
    and "link_toward b A B \<noteq> None"
  shows "link_toward b A B = Some B" "link_toward b B A \<noteq> None"
proof -
  let ?d = "(fst B - fst A, snd B - snd A)"
  have nb: "neighbour A ?d = B" using neighbour_unit[OF assms(3)] by simp
  from assms(4) obtain n where n: "get_direction (tile_at b A) ?d = Some n"
    unfolding link_toward_def by blast
  have e: "n = B" using link_target(1)[OF assms(1,2) n] nb by (simp add: neighbour_def)
  show "link_toward b A B = Some B" using n e by (simp add: link_toward_def)
  have "get_direction (tile_at b B) (- fst (step ?d), - snd (step ?d)) = Some A"
    using link_target(3)[OF assms(1,2) n] e by simp
  then show "link_toward b B A \<noteq> None"
    unfolding step_unit[OF assms(3)] link_toward_def by simp
qed

lemma first_move: "move_pawn Board_init 1 (4, 1) = Some (True, moved Board_init 1 (4, 1))"
proof -
  have g: "in_grid (4, 1)" "in_grid (4, 0)" by (simp_all add: in_grid_def)
  have "move_ok Board_init 1 (4, 1)"
    by (simp add: move_ok_def current_pos_def Board_init_players Board_init_tile g
        can_move_regularly_def get_direction_def init_tile_def)
  then show ?thesis using move_pawn_inv[OF Board_init_inv, of 1 "(4, 1)"] by simp
qed

lemma first_move_tile:
  assumes "in_grid pos"
  shows "tile_at (moved Board_init 1 (4, 1)) pos =
           (init_tile pos)\<lparr>has_pawn := (if pos = (4, 1) then 1 else if pos = (4, 8) then 2 else 0)\<rparr>"
proof -
  have g: "in_grid (4, 1)" "in_grid (4, 0)" by (simp_all add: in_grid_def)
  have c: "current_pos Board_init 1 = (4, 0)"
    by (simp add: current_pos_def Board_init_players)
  show ?thesis
    using tile_at_moved[OF Board_init_shape, of 1 "(4, 1)" pos] assms g
    by (auto simp: c Board_init_tile init_tile_def)
qed

subsection \<open>The subscripts of the grid\<close>

text \<open>
  The two operations subscript the grid at four places: \<^verbatim>\<open>self._board[new_pos[1]][new_pos[0]]\<close>
  and \<^verbatim>\<open>self._board[current_pos[1]][current_pos[0]]\<close> in \<^verbatim>\<open>move_pawn\<close>,
  \<^verbatim>\<open>self._board[position[1]][position[0]]\<close> in \<^verbatim>\<open>place_fence\<close>, and the same expression in
  \<^verbatim>\<open>_fair_play\<close>, which \<^verbatim>\<open>_place_fence_in_direction\<close> calls once or twice after it has closed a
  link. Every other Tile is reached through a reference held by a Tile. The functions below
  give, in the order of evaluation, the (column, row) pairs with which a call subscripts the
  grid, as they are written in the subscript (before Python wraps a negative index); the
  list ends where the call returns or raises.
\<close>

definition fair_play_subscripts :: "Board \<Rightarrow> int \<Rightarrow> coord list" where
  "fair_play_subscripts b player =
     (let position = (if player = 1 then get_player_1 b else get_player_2 b)
      in [position])"

definition move_pawn_subscripts :: "Board \<Rightarrow> int \<Rightarrow> coord \<Rightarrow> coord list" where
  "move_pawn_subscripts b player new_pos =
     (if \<not> (0 \<le> fst new_pos \<and> fst new_pos \<le> 8) \<or> \<not> (0 \<le> snd new_pos \<and> snd new_pos \<le> 8)
      then []
      else new_pos #
        (case Option.bind (board_index b new_pos) (deref b) of
           None \<Rightarrow> []
         | Some new_tile \<Rightarrow>
             (if get_has_pawn new_tile \<noteq> 0 then []
              else (let current_pos = (if player = 1 then player_1 b else player_2 b)
                    in [current_pos]))))"

definition place_fence_in_direction_subscripts :: "Board \<Rightarrow> string \<Rightarrow> coord \<Rightarrow> coord list" where
  "place_fence_in_direction_subscripts b direction tile =
     (if direction = ''v'' then
        (case Option.bind (deref b tile) (\<lambda>t. get_direction t (- 1, 0)) of
           None \<Rightarrow> []
         | Some border_tile \<Rightarrow>
             (case deref b border_tile of
                None \<Rightarrow> []
              | Some _ \<Rightarrow>
                  (let b1 = update_tile b tile (close_direction ''west'');
                       b2 = update_tile b1 border_tile (close_direction ''east'')
                   in fair_play_subscripts b2 1 @
                      (if fair_play b2 1 = Some True then fair_play_subscripts b2 2 else []))))
      else if direction = ''h'' then
        (case Option.bind (deref b tile) (\<lambda>t. get_direction t (0, - 1)) of
           None \<Rightarrow> []
         | Some border_tile \<Rightarrow>
             (case deref b border_tile of
                None \<Rightarrow> []
              | Some _ \<Rightarrow>
                  (let b1 = update_tile b tile (close_direction ''north'');
                       b2 = update_tile b1 border_tile (close_direction ''south'')
                   in fair_play_subscripts b2 1 @
                      (if fair_play b2 1 = Some True then fair_play_subscripts b2 2 else []))))
      else [])"

definition place_fence_subscripts :: "Board \<Rightarrow> string \<Rightarrow> coord \<Rightarrow> coord list" where
  "place_fence_subscripts b direction position =
     (if \<not> (direction = ''v'' \<or> direction = ''h'') then []
      else if \<not> (0 \<le> fst position \<and> fst position \<le> 8)
              \<or> \<not> (0 \<le> snd position \<and> snd position \<le> 8)
      then []
      else position #
        (case board_index b position of
           None \<Rightarrow> []
         | Some tile \<Rightarrow> place_fence_in_direction_subscripts b direction tile))"

lemma move_pawn_subscripts_in_grid:
  assumes "in_grid (player_1 b)" "in_grid (player_2 b)"
  shows "set (move_pawn_subscripts b player new_pos) \<subseteq> {new_pos, current_pos b player}"
    and "p \<in> set (move_pawn_subscripts b player new_pos) \<Longrightarrow> in_grid p"
    and "\<not> in_grid new_pos \<Longrightarrow> move_pawn_subscripts b player new_pos = []"
proof -
  show "set (move_pawn_subscripts b player new_pos) \<subseteq> {new_pos, current_pos b player}"
    by (auto simp: move_pawn_subscripts_def current_pos_def Let_def split: option.splits)
  show "in_grid p" if "p \<in> set (move_pawn_subscripts b player new_pos)"
    using that assms
    by (auto simp: move_pawn_subscripts_def in_grid_def Let_def split: option.splits if_splits)
  show "move_pawn_subscripts b player new_pos = []" if "\<not> in_grid new_pos"
    using that by (auto simp: move_pawn_subscripts_def in_grid_def)
qed

lemma fair_play_subscripts_in_grid:
  assumes "in_grid (player_1 b)" "in_grid (player_2 b)"
  shows "p \<in> set (fair_play_subscripts b player) \<Longrightarrow> in_grid p"
  using assms
  by (auto simp: fair_play_subscripts_def get_player_1_def get_player_2_def Let_def
      split: if_splits)

lemma place_fence_in_direction_subscripts_in_grid:
  assumes "in_grid (player_1 b)" "in_grid (player_2 b)"
    and "p \<in> set (place_fence_in_direction_subscripts b direction tile)"
  shows "in_grid p"
proof -
  have G: "in_grid p"
    if "p \<in> set (fair_play_subscripts (update_tile (update_tile b r f) s h) k)" for r f s h k
  proof -
    have "in_grid (player_1 (update_tile (update_tile b r f) s h))"
      "in_grid (player_2 (update_tile (update_tile b r f) s h))"
      using assms(1,2) by simp_all
    from fair_play_subscripts_in_grid[OF this that] show ?thesis .
  qed
  consider "direction = ''v''" | "direction \<noteq> ''v''" "direction = ''h''"
    | "direction \<noteq> ''v''" "direction \<noteq> ''h''" by blast
  then show ?thesis
  proof cases
    case 1
    with assms(3) show ?thesis
      by (simp add: place_fence_in_direction_subscripts_def Let_def
          split: option.splits if_splits) (blast dest: G)+
  next
    case 2
    with assms(3) show ?thesis
      by (simp add: place_fence_in_direction_subscripts_def Let_def
          split: option.splits if_splits) (blast dest: G)+
  next
    case 3
    with assms(3) show ?thesis by (simp add: place_fence_in_direction_subscripts_def)
  qed
qed

lemma place_fence_subscripts_in_grid:
  assumes "in_grid (player_1 b)" "in_grid (player_2 b)"
  shows "p \<in> set (place_fence_subscripts b direction position) \<Longrightarrow> in_grid p"
    and "\<not> in_grid position \<Longrightarrow> place_fence_subscripts b direction position = []"
proof -
  show "in_grid p" if "p \<in> set (place_fence_subscripts b direction position)"
    using that place_fence_in_direction_subscripts_in_grid[OF assms, of p direction]
    by (auto simp: place_fence_subscripts_def in_grid_def split: if_splits option.splits)
  show "place_fence_subscripts b direction position = []" if "\<not> in_grid position"
    using that by (auto simp: place_fence_subscripts_def in_grid_def)
qed

text \<open>
  Claim C7. Link symmetry is an invariant of the reachable boards: in the initial board and
  after any sequence of \<open>move_pawn\<close> and \<open>place_fence\<close> calls (with any arguments), for any
  two adjacent grid coordinates \<open>A\<close> and \<open>B\<close> the link of \<open>A\<close>'s Tile toward \<open>B\<close> exists if
  and only if the link of \<open>B\<close>'s Tile toward \<open>A\<close> exists, an existing link from \<open>A\<close> toward
  \<open>B\<close> points to \<open>B\<close>, and each of the four links of a Tile is either absent or the
  reference to the grid neighbour on that side (so it is absent at the edge of the board).
\<close>

theorem link_symmetry_invariant:
  assumes "reachable b" and "in_grid A" and "in_grid B"
    and "(\<bar>snd B - snd A\<bar> = 1 \<and> fst B - fst A = 0) \<or> (snd B - snd A = 0 \<and> \<bar>fst B - fst A\<bar> = 1)"
  shows "(link_toward b A B \<noteq> None) = (link_toward b B A \<noteq> None)
         \<and> (link_toward b A B = None \<or> link_toward b A B = Some B)
         \<and> (north (tile_at b A) = None
              \<or> north (tile_at b A) = Some (fst A, snd A - 1) \<and> in_grid (fst A, snd A - 1))
         \<and> (south (tile_at b A) = None
              \<or> south (tile_at b A) = Some (fst A, snd A + 1) \<and> in_grid (fst A, snd A + 1))
         \<and> (east (tile_at b A) = None
              \<or> east (tile_at b A) = Some (fst A + 1, snd A) \<and> in_grid (fst A + 1, snd A))
         \<and> (west (tile_at b A) = None
              \<or> west (tile_at b A) = Some (fst A - 1, snd A) \<and> in_grid (fst A - 1, snd A))"
proof -
  have l: "links_ok b" using reachable_inv[OF assms(1)] by (simp add: board_inv_def)
  have rev: "(\<bar>snd A - snd B\<bar> = 1 \<and> fst A - fst B = 0) \<or> (snd A - snd B = 0 \<and> \<bar>fst A - fst B\<bar> = 1)"
    using assms(4) by auto
  have 1: "(link_toward b A B \<noteq> None) = (link_toward b B A \<noteq> None)"
    using link_back(2)[OF l assms(2) assms(4)] link_back(2)[OF l assms(3) rev] by blast
  have 2: "link_toward b A B = None \<or> link_toward b A B = Some B"
    using link_back(1)[OF l assms(2) assms(4)] by blast
  note D = links_okD[OF l assms(2)]
  have 3: "north (tile_at b A) = None
              \<or> north (tile_at b A) = Some (fst A, snd A - 1) \<and> in_grid (fst A, snd A - 1)"
    using D(1) by (cases "north (tile_at b A)") auto
  have 4: "south (tile_at b A) = None
              \<or> south (tile_at b A) = Some (fst A, snd A + 1) \<and> in_grid (fst A, snd A + 1)"
    using D(2) by (cases "south (tile_at b A)") auto
  have 5: "east (tile_at b A) = None
              \<or> east (tile_at b A) = Some (fst A + 1, snd A) \<and> in_grid (fst A + 1, snd A)"
    using D(3) by (cases "east (tile_at b A)") auto
  have 6: "west (tile_at b A) = None
              \<or> west (tile_at b A) = Some (fst A - 1, snd A) \<and> in_grid (fst A - 1, snd A)"
    using D(4) by (cases "west (tile_at b A)") auto
  from 1 2 3 4 5 6 show ?thesis by blast
qed

theorem link_symmetry_invariant_witness:
  "reachable (moved Board_init 1 (4, 1)) \<and> in_grid (4, 0) \<and> in_grid (4, 1) \<and>
   link_toward (moved Board_init 1 (4, 1)) (4, 0) (4, 1) = Some (4, 1) \<and>
   link_toward (moved Board_init 1 (4, 1)) (4, 1) (4, 0) = Some (4, 0) \<and>
   north (tile_at (moved Board_init 1 (4, 1)) (4, 0)) = None \<and>
   south (tile_at (moved Board_init 1 (4, 1)) (4, 0)) = Some (4, 1)"
proof -
  have r: "reachable (moved Board_init 1 (4, 1))"
    by (rule reachable.move[OF reachable.init first_move])
  have g: "in_grid (4, 0)" "in_grid (4, 1)" by (simp_all add: in_grid_def)
  have k: "link_toward (moved Board_init 1 (4, 1)) (4, 0) (4, 1) = Some (4, 1)"
    "link_toward (moved Board_init 1 (4, 1)) (4, 1) (4, 0) = Some (4, 0)"
    "north (tile_at (moved Board_init 1 (4, 1)) (4, 0)) = None"
    "south (tile_at (moved Board_init 1 (4, 1)) (4, 0)) = Some (4, 1)"
    by (simp_all add: link_toward_def first_move_tile g init_tile_def get_direction_def)
  show ?thesis
    using link_symmetry_invariant[OF r g] r g k by simp
qed

text \<open>
  Claim C8, as amended. Pawn-state consistency is an invariant of play by the two players:
  in the initial board and after every \<open>move_pawn\<close> made for player 1 or player 2 (and every
  \<open>place_fence\<close>), exactly one cell has the marker of player 1 and it is the cell at the
  stored coordinate of player 1, whose Tile carries that coordinate; the same holds of
  player 2; the two cells differ, and every marker is 0, 1 or 2, so no cell holds both.
\<close>

theorem pawn_consistency_invariant:
  assumes "played b"
  shows "{pos. in_grid pos \<and> has_pawn (tile_at b pos) = 1} = {player_1 b}
         \<and> board_coord (tile_at b (player_1 b)) = Some (player_1 b)
         \<and> {pos. in_grid pos \<and> has_pawn (tile_at b pos) = 2} = {player_2 b}
         \<and> board_coord (tile_at b (player_2 b)) = Some (player_2 b)
         \<and> player_1 b \<noteq> player_2 b
         \<and> {pos. in_grid pos \<and> has_pawn (tile_at b pos) \<notin> {0, 1, 2}} = {}"
proof -
  note i = reachable_inv[OF played_reachable[OF assms]]
  have co: "coords_ok b" and p: "in_grid (player_1 b)" "in_grid (player_2 b)"
    using i by (simp_all add: board_inv_def)
  note P = pawns_okD[OF played_pawns[OF assms]]
  have d: "player_1 b \<noteq> player_2 b" using played_pawns[OF assms] by (simp add: pawns_ok_def)
  have h1: "has_pawn (tile_at b (player_1 b)) = 1" using P[OF p(1)] by simp
  have h2: "has_pawn (tile_at b (player_2 b)) = 2" using P[OF p(2)] d by simp
  have 1: "{pos. in_grid pos \<and> has_pawn (tile_at b pos) = 1} = {player_1 b}"
  proof (rule set_eqI)
    fix pos
    show "pos \<in> {pos. in_grid pos \<and> has_pawn (tile_at b pos) = 1} \<longleftrightarrow> pos \<in> {player_1 b}"
    proof (cases "in_grid pos")
      case True
      from P[OF True] True show ?thesis by simp
    next
      case False
      with p(1) have "pos \<noteq> player_1 b" by blast
      with False show ?thesis by simp
    qed
  qed
  have 2: "{pos. in_grid pos \<and> has_pawn (tile_at b pos) = 2} = {player_2 b}"
  proof (rule set_eqI)
    fix pos
    show "pos \<in> {pos. in_grid pos \<and> has_pawn (tile_at b pos) = 2} \<longleftrightarrow> pos \<in> {player_2 b}"
    proof (cases "in_grid pos")
      case True
      from P[OF True] True d show ?thesis by auto
    next
      case False
      with p(2) have "pos \<noteq> player_2 b" by blast
      with False show ?thesis by simp
    qed
  qed
  have 3: "{pos. in_grid pos \<and> has_pawn (tile_at b pos) \<notin> {0, 1, 2}} = {}"
    using P by auto
  from 1 2 3 d coords_okD[OF co p(1)] coords_okD[OF co p(2)] show ?thesis by blast
qed

theorem pawn_consistency_invariant_witness:
  "played (moved Board_init 1 (4, 1)) \<and>
   player_1 (moved Board_init 1 (4, 1)) = (4, 1) \<and> player_2 (moved Board_init 1 (4, 1)) = (4, 8) \<and>
   {pos. in_grid pos \<and> has_pawn (tile_at (moved Board_init 1 (4, 1)) pos) = 1} = {(4, 1)} \<and>
   {pos. in_grid pos \<and> has_pawn (tile_at (moved Board_init 1 (4, 1)) pos) = 2} = {(4, 8)} \<and>
   board_coord (tile_at (moved Board_init 1 (4, 1)) (4, 1)) = Some (4, 1)"
proof -
  have r: "played (moved Board_init 1 (4, 1))"
    by (rule played.move[OF played.init _ first_move]) simp
  have p: "player_1 (moved Board_init 1 (4, 1)) = (4, 1)"
    "player_2 (moved Board_init 1 (4, 1)) = (4, 8)"
    by (simp_all add: moved_players Board_init_players)
  show ?thesis
    using pawn_consistency_invariant[OF r] r unfolding p by simp
qed

text \<open>
  Without the restriction to the players 1 and 2 the invariant fails. \<open>move_pawn\<close> takes
  every player value other than 1 for player 2 when it reads and stores the coordinate, and
  writes the value itself as the marker: the call for player 0 to \<open>(4, 7)\<close> on the initial
  board returns \<open>True\<close>, stores \<open>(4, 7)\<close> as the coordinate of player 2 and leaves the marker
  0 both there and on \<open>(4, 8)\<close>.
\<close>

theorem pawn_marker_lost_counterexample:
  "move_pawn Board_init 0 (4, 7) = Some (True, moved Board_init 0 (4, 7)) \<and>
   player_2 (moved Board_init 0 (4, 7)) = (4, 7) \<and>
   has_pawn (tile_at (moved Board_init 0 (4, 7)) (4, 7)) = 0 \<and>
   has_pawn (tile_at (moved Board_init 0 (4, 7)) (4, 8)) = 0"
proof -
  have g: "in_grid (4, 7)" "in_grid (4, 8)" by (simp_all add: in_grid_def)
  have c: "current_pos Board_init 0 = (4, 8)"
    by (simp add: current_pos_def Board_init_players)
  have "move_ok Board_init 0 (4, 7)"
    by (simp add: move_ok_def c Board_init_tile g can_move_regularly_def get_direction_def
        init_tile_def)
  then have m: "move_pawn Board_init 0 (4, 7) = Some (True, moved Board_init 0 (4, 7))"
    using move_pawn_inv[OF Board_init_inv, of 0 "(4, 7)"] by simp
  have t: "has_pawn (tile_at (moved Board_init 0 (4, 7)) (4, 7)) = 0"
    "has_pawn (tile_at (moved Board_init 0 (4, 7)) (4, 8)) = 0"
    using tile_at_moved[OF Board_init_shape, of 0 "(4, 7)" "(4, 7)"]
      tile_at_moved[OF Board_init_shape, of 0 "(4, 7)" "(4, 8)"] g
    by (simp_all add: c)
  show ?thesis using m t by (simp add: moved_players)
qed

text \<open>
  Claim C9. On every reachable board \<open>move_pawn\<close> and \<open>place_fence\<close> return a value for every
  player value, every pair of integer coordinates and every direction string: no exception
  is raised. Every pair with which a call subscripts the grid lies in \<open>[0, 8] \<times> [0, 8]\<close>
  (none is negative, so no index wraps around), and a call whose position fails the bounds
  check subscripts nothing. \<open>place_fence\<close> returns one of its three values, and a move to a
  position out of bounds or to an occupied position returns \<open>False\<close> with the board unchanged.
\<close>

theorem operations_total:
  assumes "reachable b"
  shows "grid_shape b \<and> in_grid (player_1 b) \<and> in_grid (player_2 b)
         \<and> board_index b (player_1 b) = Some (player_1 b)
         \<and> board_index b (player_2 b) = Some (player_2 b)
         \<and> (\<exists>res b'. move_pawn b player new_pos = Some (res, b'))
         \<and> (\<exists>out b'. place_fence b direction position = Some (out, b')
               \<and> (out = PyBool True \<or> out = PyBool False
                    \<or> out = PyStr ''breaks the fair play rule''))
         \<and> (\<not> in_grid new_pos \<or> has_pawn (tile_at b new_pos) \<noteq> 0 \<longrightarrow>
               move_pawn b player new_pos = Some (False, b))
         \<and> (\<forall>p \<in> set (move_pawn_subscripts b player new_pos). in_grid p)
         \<and> (\<forall>p \<in> set (place_fence_subscripts b direction position). in_grid p)
         \<and> (\<not> in_grid new_pos \<longrightarrow> move_pawn_subscripts b player new_pos = [])
         \<and> (\<not> in_grid position \<longrightarrow> place_fence_subscripts b direction position = [])"
proof -
  note i = reachable_inv[OF assms]
  have g: "grid_shape b" and p: "in_grid (player_1 b)" "in_grid (player_2 b)"
    using i by (simp_all add: board_inv_def)
  have 1: "\<exists>res b'. move_pawn b player new_pos = Some (res, b')"
    unfolding move_pawn_inv[OF i] by blast
  have "place_fence b direction position \<noteq> None"
  proof (cases "(direction = ''v'' \<or> direction = ''h'') \<and> in_grid position")
    case False
    then have "place_fence b direction position = Some (PyBool False, b)"
      by (intro place_fence_rejected) blast
    then show ?thesis by simp
  next
    case True
    then show ?thesis
      using place_fence_inv[OF i, of direction position]
      by (cases "fence_link b direction position = None") auto
  qed
  then obtain out b' where o: "place_fence b direction position = Some (out, b')" by auto
  from place_fence_cases[OF i o] have
    "out = PyBool True \<or> out = PyBool False \<or> out = PyStr ''breaks the fair play rule''"
    by blast
  with o have 2: "\<exists>out b'. place_fence b direction position = Some (out, b')
               \<and> (out = PyBool True \<or> out = PyBool False
                    \<or> out = PyStr ''breaks the fair play rule'')" by blast
  have 3: "move_pawn b player new_pos = Some (False, b)"
    if "\<not> in_grid new_pos \<or> has_pawn (tile_at b new_pos) \<noteq> 0"
  proof -
    from that have "\<not> move_ok b player new_pos" by (auto simp: move_ok_def Let_def)
    then show ?thesis unfolding move_pawn_inv[OF i] by simp
  qed
  note M = move_pawn_subscripts_in_grid[OF p, where player = player and new_pos = new_pos]
  note F = place_fence_subscripts_in_grid[OF p, where direction = direction and position = position]
  have 4: "\<forall>p \<in> set (move_pawn_subscripts b player new_pos). in_grid p"
    using M(2) by blast
  have 5: "\<forall>p \<in> set (place_fence_subscripts b direction position). in_grid p"
    using F(1) by blast
  have 6: "\<not> in_grid new_pos \<longrightarrow> move_pawn_subscripts b player new_pos = []"
    using M(3) by blast
  have 7: "\<not> in_grid position \<longrightarrow> place_fence_subscripts b direction position = []"
    using F(2) by blast
  have 8: "grid_shape b \<and> in_grid (player_1 b) \<and> in_grid (player_2 b)
         \<and> board_index b (player_1 b) = Some (player_1 b)
         \<and> board_index b (player_2 b) = Some (player_2 b)"
    using g p board_index_in_grid[OF g p(1)] board_index_in_grid[OF g p(2)] by simp
  have 9: "\<not> in_grid new_pos \<or> has_pawn (tile_at b new_pos) \<noteq> 0 \<longrightarrow>
               move_pawn b player new_pos = Some (False, b)"
    using 3 by blast
  from 8 1 2 9 4 5 6 7 show ?thesis by (intro conjI) (elim conjE, assumption)+
qed

theorem operations_total_witness:
  "reachable (moved Board_init 1 (4, 1)) \<and>
   \<not> in_grid (4, 9) \<and> move_pawn (moved Board_init 1 (4, 1)) 7 (4, 9)
      = Some (False, moved Board_init 1 (4, 1)) \<and>
   move_pawn_subscripts (moved Board_init 1 (4, 1)) 7 (4, 9) = [] \<and>
   in_grid (4, 8) \<and> has_pawn (tile_at (moved Board_init 1 (4, 1)) (4, 8)) \<noteq> 0 \<and>
   move_pawn (moved Board_init 1 (4, 1)) 1 (4, 8) = Some (False, moved Board_init 1 (4, 1)) \<and>
   move_pawn_subscripts (moved Board_init 1 (4, 1)) 1 (4, 8) = [(4, 8)] \<and>
   move_pawn_subscripts (moved Board_init 1 (4, 1)) 2 (4, 7) = [(4, 7), (4, 8)] \<and>
   \<not> in_grid (- 3, 12) \<and>
   place_fence_subscripts (moved Board_init 1 (4, 1)) ''h'' (- 3, 12) = [] \<and>
   (\<exists>out b'. place_fence (moved Board_init 1 (4, 1)) ''h'' (- 3, 12) = Some (out, b'))"
proof -
  have r: "reachable (moved Board_init 1 (4, 1))"
    by (rule reachable.move[OF reachable.init first_move])
  have s: "grid_shape (moved Board_init 1 (4, 1))" by (simp add: Board_init_shape)
  have g: "\<not> in_grid (4, 9)" "in_grid (4, 8)" "in_grid (4, 7)" "\<not> in_grid (- 3, 12)"
    by (simp_all add: in_grid_def)
  have f: "has_pawn (tile_at (moved Board_init 1 (4, 1)) (4, 8)) \<noteq> 0"
    by (simp add: first_move_tile g)
  have m: "move_pawn_subscripts (moved Board_init 1 (4, 1)) 1 (4, 8) = [(4, 8)]"
    "move_pawn_subscripts (moved Board_init 1 (4, 1)) 2 (4, 7) = [(4, 7), (4, 8)]"
    by (simp_all add: move_pawn_subscripts_def board_index_in_grid[OF s] deref_in_grid[OF s] g
        first_move_tile get_has_pawn_def moved_players Board_init_players)
  show ?thesis
    using operations_total[OF r, of 7 "(4, 9)" "''h''" "(- 3, 12)"]
      operations_total[OF r, of 1 "(4, 8)" "''h''" "(- 3, 12)"] r g f m
    by blast
qed

text \<open>
  Boards for the fence examples. \<open>near_goals\<close>: player 1 at \<open>(4, 7)\<close> and player 2 at
  \<open>(4, 1)\<close>, one step from their goal rows, without fences. \<open>goal_cell_walled\<close>: player 1
  stands in its goal row at \<open>(3, 8)\<close> with a fence on the west and on the east of its cell;
  \<open>goal_cell_sealed\<close> is that board with the north side of \<open>(3, 8)\<close> closed as well, the
  board on which \<open>place_fence\<close> runs the fair-play search for the fence \<open>"h"\<close> at \<open>(3, 8)\<close>.
\<close>

definition near_goals :: Board where
  "near_goals = moved (moved Board_init 1 (4, 7)) 2 (4, 1)"

definition goal_cell_walled :: Board where
  "goal_cell_walled = fenced (fenced (moved Board_init 1 (3, 8)) ''v'' (3, 8)) ''v'' (4, 8)"

definition goal_cell_sealed :: Board where
  "goal_cell_sealed = fenced goal_cell_walled ''h'' (3, 8)"

lemma near_goals_inv: "board_inv near_goals"
  unfolding near_goals_def
  by (intro board_inv_moved Board_init_inv) (simp_all add: in_grid_def)

lemma near_goals_players: "player_1 near_goals = (4, 7)" "player_2 near_goals = (4, 1)"
  by (simp_all add: near_goals_def moved_players)

lemma near_goals_tile:
  assumes "in_grid pos"
  shows "tile_at near_goals pos =
           (init_tile pos)\<lparr>has_pawn := (if pos = (4, 7) then 1 else if pos = (4, 1) then 2 else 0)\<rparr>"
proof -
  have g: "in_grid (4, 0)" "in_grid (4, 8)" "in_grid (4, 7)" "in_grid (4, 1)"
    by (simp_all add: in_grid_def)
  have c1: "current_pos Board_init 1 = (4, 0)"
    by (simp add: current_pos_def Board_init_players)
  have c2: "current_pos (moved Board_init 1 (4, 7)) 2 = (4, 8)"
    by (simp add: current_pos_def moved_players Board_init_players)
  have t1: "tile_at (moved Board_init 1 (4, 7)) q =
      (if q = (4, 7) then (init_tile q)\<lparr>has_pawn := 1\<rparr>
       else if q = (4, 0) then (init_tile q)\<lparr>has_pawn := 0\<rparr> else init_tile q)"
    if "in_grid q" for q
    using tile_at_moved[OF Board_init_shape, of 1 "(4, 7)" q] that g
    by (simp add: c1 Board_init_tile)
  have s1: "grid_shape (moved Board_init 1 (4, 7))" by (simp add: Board_init_shape)
  show ?thesis
    unfolding near_goals_def
    using tile_at_moved[OF s1, of 2 "(4, 1)" pos] assms g
    by (auto simp: c2 t1 init_tile_def)
qed

lemma goal_move_inv: "board_inv (moved Board_init 1 (3, 8))"
  by (intro board_inv_moved Board_init_inv) (simp add: in_grid_def)

lemma goal_move_tile:
  assumes "in_grid pos"
  shows "tile_at (moved Board_init 1 (3, 8)) pos =
           (init_tile pos)\<lparr>has_pawn := (if pos = (3, 8) then 1 else if pos = (4, 8) then 2 else 0)\<rparr>"
proof -
  have g: "in_grid (3, 8)" "in_grid (4, 0)" by (simp_all add: in_grid_def)
  have c: "current_pos Board_init 1 = (4, 0)"
    by (simp add: current_pos_def Board_init_players)
  show ?thesis
    using tile_at_moved[OF Board_init_shape, of 1 "(3, 8)" pos] assms g
    by (auto simp: c Board_init_tile init_tile_def)
qed

lemma wall_west_link: "fence_link (moved Board_init 1 (3, 8)) ''v'' (3, 8) = Some (2, 8)"
  by (simp add: fence_link_def goal_move_tile in_grid_def init_tile_def)

lemma wall_west_inv: "board_inv (fenced (moved Board_init 1 (3, 8)) ''v'' (3, 8))"
  by (rule board_inv_fenced[OF goal_move_inv _ wall_west_link]) (simp add: in_grid_def)

lemma wall_west_tile:
  assumes "in_grid pos"
  shows "tile_at (fenced (moved Board_init 1 (3, 8)) ''v'' (3, 8)) pos =
           (if pos = (2, 8) then (tile_at (moved Board_init 1 (3, 8)) pos)\<lparr>east := None\<rparr>
            else if pos = (3, 8) then (tile_at (moved Board_init 1 (3, 8)) pos)\<lparr>west := None\<rparr>
            else tile_at (moved Board_init 1 (3, 8)) pos)"
proof -
  have g: "grid_shape (moved Board_init 1 (3, 8))" by (simp add: Board_init_shape)
  show ?thesis
    using tile_at_fenced[OF g, of "(3, 8)" "''v''" pos] assms
    by (simp add: border_pos_def in_grid_def)
qed

lemma wall_east_link:
  "fence_link (fenced (moved Board_init 1 (3, 8)) ''v'' (3, 8)) ''v'' (4, 8) = Some (3, 8)"
  by (simp add: fence_link_def wall_west_tile goal_move_tile in_grid_def init_tile_def)

lemma goal_cell_walled_inv: "board_inv goal_cell_walled"
  unfolding goal_cell_walled_def
  by (rule board_inv_fenced[OF wall_west_inv _ wall_east_link]) (simp add: in_grid_def)

lemma goal_cell_walled_tile:
  assumes "in_grid pos"
  shows "tile_at goal_cell_walled pos =
           (if pos = (3, 8)
            then (tile_at (fenced (moved Board_init 1 (3, 8)) ''v'' (3, 8)) pos)\<lparr>east := None\<rparr>
            else if pos = (4, 8)
            then (tile_at (fenced (moved Board_init 1 (3, 8)) ''v'' (3, 8)) pos)\<lparr>west := None\<rparr>
            else tile_at (fenced (moved Board_init 1 (3, 8)) ''v'' (3, 8)) pos)"
proof -
  have g: "grid_shape (fenced (moved Board_init 1 (3, 8)) ''v'' (3, 8))"
    by (simp add: Board_init_shape)
  show ?thesis
    unfolding goal_cell_walled_def
    using tile_at_fenced[OF g, of "(4, 8)" "''v''" pos] assms
    by (simp add: border_pos_def in_grid_def)
qed

lemma goal_cell_walled_players:
  "player_1 goal_cell_walled = (3, 8)" "player_2 goal_cell_walled = (4, 8)"
  by (simp_all add: goal_cell_walled_def moved_players Board_init_players)

lemma seal_link: "fence_link goal_cell_walled ''h'' (3, 8) = Some (3, 7)"
  by (simp add: fence_link_def goal_cell_walled_tile wall_west_tile goal_move_tile in_grid_def
      init_tile_def)

lemma goal_cell_sealed_inv: "board_inv goal_cell_sealed"
  unfolding goal_cell_sealed_def
  by (rule board_inv_fenced[OF goal_cell_walled_inv _ seal_link]) (simp add: in_grid_def)

lemma goal_cell_sealed_players:
  "player_1 goal_cell_sealed = (3, 8)" "player_2 goal_cell_sealed = (4, 8)"
  by (simp_all add: goal_cell_sealed_def goal_cell_walled_players)

lemma goal_cell_sealed_tile:
  assumes "in_grid pos"
  shows "tile_at goal_cell_sealed pos =
           (if pos = (3, 7) then (tile_at goal_cell_walled pos)\<lparr>south := None\<rparr>
            else if pos = (3, 8) then (tile_at goal_cell_walled pos)\<lparr>north := None\<rparr>
            else tile_at goal_cell_walled pos)"
proof -
  have g: "grid_shape goal_cell_walled" using goal_cell_walled_inv by (simp add: board_inv_def)
  show ?thesis
    unfolding goal_cell_sealed_def
    using tile_at_fenced[OF g, of "(3, 8)" "''h''" pos] assms
    by (simp add: border_pos_def in_grid_def)
qed

lemma sealed_no_links: "get_valid_directions (tile_at goal_cell_sealed (3, 8)) = []"
  by (simp add: get_valid_directions_def goal_cell_sealed_tile goal_cell_walled_tile
      wall_west_tile goal_move_tile in_grid_def init_tile_def)

lemma sealed_column:
  assumes "1 \<le> k" "k \<le> 8"
  shows "((4, k), (4, k - 1)) \<in> linked goal_cell_sealed"
proof -
  have g: "in_grid (4, k)" using assms by (simp add: in_grid_def)
  have g8: "in_grid (4, 8)" by (simp add: in_grid_def)
  have "north (tile_at goal_cell_sealed (4, k)) = Some (4, k - 1)"
    using assms
    by (auto simp: goal_cell_sealed_tile goal_cell_walled_tile wall_west_tile goal_move_tile
        g g8 init_tile_def)
  then show ?thesis using g by (simp add: linked_def get_valid_directions_def)
qed

lemma sealed_route_2: "((4, 8), (4, 0)) \<in> (linked goal_cell_sealed)\<^sup>+"
proof -
  have "((4, int (Suc n)), (4, 0)) \<in> (linked goal_cell_sealed)\<^sup>+" if "n < 8" for n
    using that
  proof (induction n)
    case 0
    from sealed_column[of 1] show ?case by (simp add: r_into_trancl)
  next
    case (Suc n)
    then have "((4, int (Suc n)), (4, 0)) \<in> (linked goal_cell_sealed)\<^sup>+" by simp
    moreover have "((4, int (Suc (Suc n))), (4, int (Suc n))) \<in> linked goal_cell_sealed"
      using sealed_column[of "int (Suc (Suc n))"] Suc.prems by simp
    ultimately show ?case by (rule trancl_into_trancl2[rotated])
  qed
  from this[of 7] show ?thesis by simp
qed

lemma place_fence_routes:
  assumes "board_inv b" "direction = ''v'' \<or> direction = ''h''" "in_grid position"
    and "fence_link b direction position \<noteq> None"
  shows "place_fence b direction position =
           Some (if has_route (fenced b direction position) 1
                    \<and> has_route (fenced b direction position) 2
                 then (PyBool True, fenced b direction position)
                 else (PyStr ''breaks the fair play rule'', b))"
proof -
  from assms(4) obtain nb where nb: "fence_link b direction position = Some nb" by blast
  note i = board_inv_fenced[OF assms(1,3) nb]
  show ?thesis
    using place_fence_inv(2)[OF assms(1,2,3,4)]
    unfolding fair_play_inv[OF i] by simp
qed

text \<open>
  \<open>goal_cell_walled\<close> is reached from the initial board through \<open>move_pawn\<close> and
  \<open>place_fence\<close> alone: player 1 walks from \<open>(4, 0)\<close> to \<open>(3, 0)\<close> and down column 3 to
  \<open>(3, 8)\<close>, then the fences \<open>"v"\<close> at \<open>(3, 8)\<close> and \<open>"v"\<close> at \<open>(4, 8)\<close> are placed.
\<close>

lemma walk_tile:
  assumes "in_grid p" "in_grid pos"
  shows "tile_at (moved Board_init 1 p) pos =
           (init_tile pos)\<lparr>has_pawn := (if pos = p then 1 else if pos = (4, 8) then 2 else 0)\<rparr>"
proof -
  have g: "in_grid (4, 0)" by (simp add: in_grid_def)
  have c: "current_pos Board_init 1 = (4, 0)"
    by (simp add: current_pos_def Board_init_players)
  show ?thesis
    using tile_at_moved[OF Board_init_shape, of 1 p pos] assms g
    by (auto simp: c Board_init_tile init_tile_def)
qed

lemma walk_players:
  "current_pos (moved Board_init 1 p) 1 = p" "player_2 (moved Board_init 1 p) = (4, 8)"
  by (simp_all add: current_pos_def moved_players Board_init_players)

lemma walk_again:
  assumes "in_grid p" "in_grid q" "p \<noteq> (4, 8)"
  shows "moved (moved Board_init 1 p) 1 q = moved Board_init 1 q"
proof (rule board_eqI)
  show "grid_shape (moved (moved Board_init 1 p) 1 q)" "grid_shape (moved Board_init 1 q)"
    by (simp_all add: Board_init_shape)
  show "player_1 (moved (moved Board_init 1 p) 1 q) = player_1 (moved Board_init 1 q)"
    "player_2 (moved (moved Board_init 1 p) 1 q) = player_2 (moved Board_init 1 q)"
    by (simp_all add: moved_players)
  fix pos assume pos: "in_grid pos"
  have s: "grid_shape (moved Board_init 1 p)" by (simp add: Board_init_shape)
  have c: "in_grid (current_pos (moved Board_init 1 p) 1)" using assms(1) by (simp add: walk_players)
  show "tile_at (moved (moved Board_init 1 p) 1 q) pos = tile_at (moved Board_init 1 q) pos"
    using tile_at_moved[OF s c assms(2) pos] assms pos
    by (auto simp: walk_players walk_tile)
qed

lemma walk_start: "moved Board_init 1 (4, 0) = Board_init"
proof (rule board_eqI)
  show "grid_shape (moved Board_init 1 (4, 0))" "grid_shape Board_init"
    by (simp_all add: Board_init_shape)
  show "player_1 (moved Board_init 1 (4, 0)) = player_1 Board_init"
    "player_2 (moved Board_init 1 (4, 0)) = player_2 Board_init"
    by (simp_all add: moved_players Board_init_players)
  fix pos assume pos: "in_grid pos"
  have g: "in_grid (4, 0)" by (simp add: in_grid_def)
  show "tile_at (moved Board_init 1 (4, 0)) pos = tile_at Board_init pos"
    using pos by (auto simp: walk_tile[OF g] Board_init_tile init_tile_def)
qed

lemma walk_step:
  assumes "in_grid p" "in_grid q" "p \<noteq> (4, 8)" "q \<noteq> (4, 8)"
    and "(\<bar>snd q - snd p\<bar> = 1 \<and> fst q - fst p = 0) \<or> (snd q - snd p = 0 \<and> \<bar>fst q - fst p\<bar> = 1)"
  shows "move_pawn (moved Board_init 1 p) 1 q = Some (True, moved Board_init 1 q)"
proof -
  have i: "board_inv (moved Board_init 1 p)"
    by (rule board_inv_moved[OF Board_init_inv assms(1)])
  have n: "p \<noteq> q" using assms(5) by auto
  have f: "has_pawn (tile_at (moved Board_init 1 p) q) = 0"
    using n assms(4) by (simp add: walk_tile[OF assms(1,2)])
  have l: "get_direction (tile_at (moved Board_init 1 p) p) (fst q - fst p, snd q - snd p) \<noteq> None"
    using assms(1,2,5)
    by (auto simp: walk_tile[OF assms(1,1)] get_direction_def init_tile_def in_grid_def)
  have "move_ok (moved Board_init 1 p) 1 q"
    unfolding move_ok_def walk_players Let_def
    using assms(2) f l regular_shape(1)[OF assms(5), of "tile_at (moved Board_init 1 p) p"]
    by simp
  then show ?thesis
    using move_pawn_inv[OF i, of 1 q] by (simp add: walk_again[OF assms(1,2,3)])
qed

lemma reachable_column_3: "k \<le> 8 \<Longrightarrow> reachable (moved Board_init 1 (3, int k))"
proof (induction k)
  case 0
  have "reachable (moved Board_init 1 (4, 0))" unfolding walk_start by (rule reachable.init)
  moreover have "move_pawn (moved Board_init 1 (4, 0)) 1 (3, 0)
      = Some (True, moved Board_init 1 (3, 0))"
    by (rule walk_step) (simp_all add: in_grid_def)
  ultimately show ?case unfolding of_nat_0 by (rule reachable.move)
next
  case (Suc k)
  then have r: "reachable (moved Board_init 1 (3, int k))" by simp
  have "move_pawn (moved Board_init 1 (3, int k)) 1 (3, int (Suc k))
      = Some (True, moved Board_init 1 (3, int (Suc k)))"
    using Suc.prems by (intro walk_step) (simp_all add: in_grid_def)
  with r show ?case by (rule reachable.move)
qed

lemma column_4_route:
  assumes "\<And>k. 1 \<le> k \<Longrightarrow> k \<le> 8 \<Longrightarrow> north (tile_at b (4, k)) = Some (4, k - 1)"
  shows "((4, 8), (4, 0)) \<in> (linked b)\<^sup>+"
proof -
  have s: "((4, k), (4, k - 1)) \<in> linked b" if "1 \<le> k" "k \<le> 8" for k
    using assms[OF that] that by (simp add: linked_def get_valid_directions_def in_grid_def)
  have "((4, int (Suc n)), (4, 0)) \<in> (linked b)\<^sup>+" if "n < 8" for n
    using that
  proof (induction n)
    case 0
    from s[of 1] show ?case by (simp add: r_into_trancl)
  next
    case (Suc n)
    then have "((4, int (Suc n)), (4, 0)) \<in> (linked b)\<^sup>+" by simp
    moreover have "((4, int (Suc (Suc n))), (4, int (Suc n))) \<in> linked b"
      using s[of "int (Suc (Suc n))"] Suc.prems by simp
    ultimately show ?case by (rule trancl_into_trancl2[rotated])
  qed
  from this[of 7] show ?thesis by simp
qed

lemma wall_west_placed:
  "place_fence (moved Board_init 1 (3, 8)) ''v'' (3, 8)
     = Some (PyBool True, fenced (moved Board_init 1 (3, 8)) ''v'' (3, 8))"
proof -
  let ?f = "fenced (moved Board_init 1 (3, 8)) ''v'' (3, 8)"
  have g: "in_grid (3, 8)" by (simp add: in_grid_def)
  have c: "current_pos ?f 1 = (3, 8)" "current_pos ?f 2 = (4, 8)"
    by (simp_all add: current_pos_def moved_players Board_init_players)
  have "((3, 8), (4, 8)) \<in> linked ?f"
    by (simp add: linked_def get_valid_directions_def wall_west_tile goal_move_tile g
        in_grid_def init_tile_def)
  then have "((3, 8), (4, 8)) \<in> (linked ?f)\<^sup>+" by (rule r_into_trancl)
  then have 1: "has_route ?f 1" unfolding has_route_def c goal_row_def by force
  have "((4, 8), (4, 0)) \<in> (linked ?f)\<^sup>+"
    by (rule column_4_route) (auto simp: wall_west_tile goal_move_tile in_grid_def init_tile_def)
  then have 2: "has_route ?f 2" unfolding has_route_def c goal_row_def by force
  show ?thesis
    using place_fence_routes[OF goal_move_inv _ g, of "''v''"] wall_west_link 1 2 by simp
qed

lemma walled_routes: "has_route goal_cell_walled 1" "has_route goal_cell_walled 2"
proof -
  have g: "in_grid (4, 8)" "in_grid (3, 8)" "in_grid (3, 7)" "in_grid (2, 7)"
    by (simp_all add: in_grid_def)
  have c: "current_pos goal_cell_walled 1 = (3, 8)" "current_pos goal_cell_walled 2 = (4, 8)"
    by (simp_all add: current_pos_def goal_cell_walled_players)
  have "((3, 8), (3, 7)) \<in> linked goal_cell_walled" "((3, 7), (2, 7)) \<in> linked goal_cell_walled"
    "((2, 7), (2, 8)) \<in> linked goal_cell_walled"
    by (simp_all add: linked_def get_valid_directions_def goal_cell_walled_tile wall_west_tile
        goal_move_tile g init_tile_def)
  then have "((3, 8), (2, 8)) \<in> (linked goal_cell_walled)\<^sup>+"
    by (meson r_into_trancl trancl_trans)
  then show "has_route goal_cell_walled 1" unfolding has_route_def c goal_row_def by force
  have "((4, 8), (4, 0)) \<in> (linked goal_cell_walled)\<^sup>+"
    by (rule column_4_route)
      (auto simp: goal_cell_walled_tile wall_west_tile goal_move_tile in_grid_def init_tile_def)
  then show "has_route goal_cell_walled 2" unfolding has_route_def c goal_row_def by force
qed

lemma wall_east_placed:
  "place_fence (fenced (moved Board_init 1 (3, 8)) ''v'' (3, 8)) ''v'' (4, 8)
     = Some (PyBool True, goal_cell_walled)"
proof -
  have g: "in_grid (4, 8)" by (simp add: in_grid_def)
  show ?thesis
    using place_fence_routes[OF wall_west_inv _ g, of "''v''"] wall_east_link walled_routes
    unfolding goal_cell_walled_def[symmetric] by simp
qed

lemma goal_cell_walled_reachable: "reachable goal_cell_walled"
proof -
  have "reachable (moved Board_init 1 (3, 8))" using reachable_column_3[of 8] by simp
  then have "reachable (fenced (moved Board_init 1 (3, 8)) ''v'' (3, 8))"
    using wall_west_placed by (rule reachable.fence)
  then show ?thesis using wall_east_placed by (rule reachable.fence)
qed

lemma valid_directions_member:
  "north t = Some n \<Longrightarrow> n \<in> set (get_valid_directions t)"
  "south t = Some n \<Longrightarrow> n \<in> set (get_valid_directions t)"
  "east t = Some n \<Longrightarrow> n \<in> set (get_valid_directions t)"
  "west t = Some n \<Longrightarrow> n \<in> set (get_valid_directions t)"
  by (simp_all add: get_valid_directions_def)

lemma linked_sym:
  assumes "links_ok b" "(p, q) \<in> linked b"
  shows "(q, p) \<in> linked b"
proof -
  from assms(2) have p: "in_grid p" and q: "q \<in> set (get_valid_directions (tile_at b p))"
    by (simp_all add: linked_def)
  note D = links_okD[OF assms(1) p, of q]
  from valid_directions_cases[OF q] D
  have "in_grid q \<and> (north (tile_at b q) = Some p \<or> south (tile_at b q) = Some p
          \<or> east (tile_at b q) = Some p \<or> west (tile_at b q) = Some p)"
    by blast
  then show ?thesis
    using valid_directions_member[of "tile_at b q" p] by (auto simp: linked_def)
qed

lemma route_nonempty:
  assumes "links_ok b" "in_grid p"
  shows "(\<exists>q. (p, q) \<in> (linked b)\<^sup>+ \<and> snd q = row) =
         (get_valid_directions (tile_at b p) \<noteq> [] \<and> (\<exists>q. (p, q) \<in> (linked b)\<^sup>* \<and> snd q = row))"
proof
  assume "\<exists>q. (p, q) \<in> (linked b)\<^sup>+ \<and> snd q = row"
  then obtain q where q: "(p, q) \<in> (linked b)\<^sup>+" "snd q = row" by blast
  from q(1) obtain n where "(p, n) \<in> linked b" by (meson tranclD)
  then have "get_valid_directions (tile_at b p) \<noteq> []" by (auto simp: linked_def)
  moreover have "(p, q) \<in> (linked b)\<^sup>*" using q(1) by (rule trancl_into_rtrancl)
  ultimately show "get_valid_directions (tile_at b p) \<noteq> [] \<and>
      (\<exists>q. (p, q) \<in> (linked b)\<^sup>* \<and> snd q = row)" using q(2) by blast
next
  assume a: "get_valid_directions (tile_at b p) \<noteq> [] \<and>
      (\<exists>q. (p, q) \<in> (linked b)\<^sup>* \<and> snd q = row)"
  then obtain n where "n \<in> set (get_valid_directions (tile_at b p))"
    by (cases "get_valid_directions (tile_at b p)") auto
  then have pn: "(p, n) \<in> linked b" using assms(2) by (simp add: linked_def)
  then have "(n, p) \<in> linked b" by (rule linked_sym[OF assms(1)])
  with pn have loop: "(p, p) \<in> (linked b)\<^sup>+" by (meson r_into_trancl trancl_trans)
  from a obtain q where q: "(p, q) \<in> (linked b)\<^sup>*" "snd q = row" by blast
  from loop q(1) have "(p, q) \<in> (linked b)\<^sup>+" by (rule trancl_rtrancl_trancl)
  with q(2) show "\<exists>q. (p, q) \<in> (linked b)\<^sup>+ \<and> snd q = row" by blast
qed

text \<open>
  What the fair-play search computes. On every board that satisfies the board invariant,
  and for every player value (a value other than 1 is treated as player 2), the search
  returns, and it returns \<open>True\<close> if and only if a path of one or more open links leads from
  the player's current cell to a cell of the player's goal row; equivalently, if and only
  if the current cell has at least one open link and a path of open links of any length
  leads from it to the goal row. The search starts from the neighbours of the current cell:
  the current cell itself is examined only when a path leads back to it. So the search
  agrees with the existence of a path of open links of any length on every board but one
  where the pawn stands in its goal row on a cell without an open link.
\<close>

lemma fair_play_iff_route:
  assumes "board_inv b"
  shows "fair_play b player =
           Some (\<exists>q. (current_pos b player, q) \<in> (linked b)\<^sup>+ \<and> snd q = goal_row player)
         \<and> ((\<exists>q. (current_pos b player, q) \<in> (linked b)\<^sup>+ \<and> snd q = goal_row player) =
              (get_valid_directions (tile_at b (current_pos b player)) \<noteq> []
               \<and> (\<exists>q. (current_pos b player, q) \<in> (linked b)\<^sup>* \<and> snd q = goal_row player)))"
proof -
  have l: "links_ok b" and c: "in_grid (current_pos b player)"
    using assms by (simp_all add: board_inv_def current_pos_def)
  show ?thesis
    using fair_play_inv[OF assms, of player] route_nonempty[OF l c, of "goal_row player"]
    unfolding has_route_def by blast
qed

lemma fair_play_off_goal_row:
  assumes "board_inv b" "snd (current_pos b player) \<noteq> goal_row player"
  shows "fair_play b player =
           Some (\<exists>q. (current_pos b player, q) \<in> (linked b)\<^sup>* \<and> snd q = goal_row player)"
proof -
  have "(\<exists>q. (current_pos b player, q) \<in> (linked b)\<^sup>* \<and> snd q = goal_row player) =
        (\<exists>q. (current_pos b player, q) \<in> (linked b)\<^sup>+ \<and> snd q = goal_row player)"
    using assms(2) by (metis rtranclD trancl_into_rtrancl)
  then show ?thesis using fair_play_inv[OF assms(1), of player] unfolding has_route_def by simp
qed

lemma fair_play_on_goal_row:
  assumes "board_inv b" "snd (current_pos b player) = goal_row player"
  shows "fair_play b player
           = Some (get_valid_directions (tile_at b (current_pos b player)) \<noteq> [])"
proof -
  have l: "links_ok b" and c: "in_grid (current_pos b player)"
    using assms(1) by (simp_all add: board_inv_def current_pos_def)
  have "\<exists>q. (current_pos b player, q) \<in> (linked b)\<^sup>* \<and> snd q = goal_row player"
    using assms(2) by blast
  then show ?thesis
    using fair_play_inv[OF assms(1), of player] route_nonempty[OF l c, of "goal_row player"]
    unfolding has_route_def by simp
qed

text \<open>
  Claim C1. The claim holds of every board on which the pawn is not in its goal row
  (\<open>fair_play_off_goal_row\<close>), and fails in its last clause: the search does not return
  \<open>True\<close> whenever the pawn's cell is itself in the goal row. The docstring of
  \<^verbatim>\<open>_fair_play\<close> promises \<^verbatim>\<open>True\<close> when the player can still reach the goal, and the set
  \<^verbatim>\<open>paths_taken\<close> is there to track the visited Tiles; but it is given the coordinate tuple
  of the start instead of the start Tile, and the loop tests only the Tiles it takes from
  the queue, so the row of the start Tile is tested only when a link leads back to it.
  On the reachable board \<open>goal_cell_walled\<close> player 1 stands in its goal row at \<open>(3, 8)\<close>
  with the north link open, and the search returns \<open>True\<close>; on \<open>goal_cell_sealed\<close>, the board
  on which \<open>place_fence\<close> runs the search when the fence \<open>"h"\<close> at \<open>(3, 8)\<close> is asked for on
  \<open>goal_cell_walled\<close>, the pawn stands on the same cell, the path of length zero reaches the
  goal row, and the search returns \<open>False\<close>.
\<close>

theorem fair_play_goal_row_sealed:
  "reachable goal_cell_walled \<and> fence_link goal_cell_walled ''h'' (3, 8) = Some (3, 7) \<and>
   goal_cell_sealed = fenced goal_cell_walled ''h'' (3, 8) \<and>
   current_pos goal_cell_walled 1 = (3, 8) \<and> current_pos goal_cell_sealed 1 = (3, 8) \<and>
   snd (current_pos goal_cell_sealed 1) = goal_row 1 \<and>
   (current_pos goal_cell_sealed 1, current_pos goal_cell_sealed 1) \<in> (linked goal_cell_sealed)\<^sup>* \<and>
   fair_play goal_cell_walled 1 = Some True \<and>
   fair_play goal_cell_sealed 1 = Some False"
proof -
  have c: "current_pos goal_cell_sealed 1 = (3, 8)" "current_pos goal_cell_walled 1 = (3, 8)"
    by (simp_all add: current_pos_def goal_cell_sealed_players goal_cell_walled_players)
  have r: "goal_row 1 = 8" by (simp add: goal_row_def)
  have f: "fair_play goal_cell_sealed 1 = Some False"
    using fair_play_on_goal_row[OF goal_cell_sealed_inv, of 1]
    by (simp add: c r sealed_no_links)
  have t: "fair_play goal_cell_walled 1 = Some True"
    using fair_play_inv[OF goal_cell_walled_inv, of 1] walled_routes(1) by simp
  have z: "((3, 8), (3, 8)) \<in> (linked goal_cell_sealed)\<^sup>*" by simp
  show ?thesis
    unfolding c r
    using f t z goal_cell_walled_reachable seal_link goal_cell_sealed_def
    by simp
qed

text \<open>
  What \<open>place_fence\<close> returns. On every board that satisfies the board invariant: a direction other
  than \<open>"v"\<close> and \<open>"h"\<close> or a position outside the grid is rejected (\<open>False\<close>) with the
  board unchanged. For a valid direction and position, \<open>place_fence\<close> returns \<open>False\<close> if and
  only if the west link (for \<open>"v"\<close>) or the north link (for \<open>"h"\<close>) of the target Tile is
  absent, the board being unchanged; otherwise both sides of the link are closed and the
  fair-play search is run on the closed board, and the result is
  \<open>"breaks the fair play rule"\<close> with the board restored to what it was if, for either
  player, no path of one or more open links leads from the player's cell to the goal row,
  else \<open>True\<close> with the closure kept.
\<close>

lemma place_fence_outcome:
  assumes "board_inv b"
  shows "(\<not> (direction = ''v'' \<or> direction = ''h'') \<or> \<not> in_grid position \<longrightarrow>
            place_fence b direction position = Some (PyBool False, b))
         \<and> ((direction = ''v'' \<or> direction = ''h'') \<and> in_grid position \<longrightarrow>
              ((\<exists>b'. place_fence b direction position = Some (PyBool False, b'))
                 = (fence_link b direction position = None))
              \<and> (fence_link b direction position = None \<longrightarrow>
                    place_fence b direction position = Some (PyBool False, b))
              \<and> (fence_link b direction position \<noteq> None \<longrightarrow>
                    fair_play (fenced b direction position) 1
                      = Some (has_route (fenced b direction position) 1)
                    \<and> fair_play (fenced b direction position) 2
                      = Some (has_route (fenced b direction position) 2)
                    \<and> fence_link (fenced b direction position) direction position = None
                    \<and> place_fence b direction position =
                        Some (if has_route (fenced b direction position) 1
                                 \<and> has_route (fenced b direction position) 2
                              then (PyBool True, fenced b direction position)
                              else (PyStr ''breaks the fair play rule'', b))))"
proof -
  have g: "grid_shape b" and l: "links_ok b" using assms by (simp_all add: board_inv_def)
  have 1: "place_fence b direction position = Some (PyBool False, b)"
    if "\<not> (direction = ''v'' \<or> direction = ''h'') \<or> \<not> in_grid position"
    using that by (rule place_fence_rejected)
  have 2: "((\<exists>b'. place_fence b direction position = Some (PyBool False, b'))
                 = (fence_link b direction position = None))
              \<and> (fence_link b direction position = None \<longrightarrow>
                    place_fence b direction position = Some (PyBool False, b))
              \<and> (fence_link b direction position \<noteq> None \<longrightarrow>
                    fair_play (fenced b direction position) 1
                      = Some (has_route (fenced b direction position) 1)
                    \<and> fair_play (fenced b direction position) 2
                      = Some (has_route (fenced b direction position) 2)
                    \<and> fence_link (fenced b direction position) direction position = None
                    \<and> place_fence b direction position =
                        Some (if has_route (fenced b direction position) 1
                                 \<and> has_route (fenced b direction position) 2
                              then (PyBool True, fenced b direction position)
                              else (PyStr ''breaks the fair play rule'', b)))"
    if v: "direction = ''v'' \<or> direction = ''h''" and p: "in_grid position"
  proof (cases "fence_link b direction position = None")
    case True
    from place_fence_inv(1)[OF assms v p True] True show ?thesis by simp
  next
    case False
    then obtain nb where nb: "fence_link b direction position = Some nb" by blast
    note i = board_inv_fenced[OF assms p nb]
    note B = fence_link_border[OF l p nb]
    have nbg: "in_grid (border_pos direction position)" using B(1,2) by simp
    have c: "fence_link (fenced b direction position) direction position = None"
      using fenced_fields(1)[OF g p nbg p] fenced_fields(4)[OF g p nbg p]
      unfolding fence_link_def
      by (cases "direction = ''v''") simp_all
    from place_fence_routes[OF assms v p False] False c fair_play_inv[OF i]
    show ?thesis by (auto split: if_splits)
  qed
  show ?thesis
  proof (rule conjI)
    show "\<not> (direction = ''v'' \<or> direction = ''h'') \<or> \<not> in_grid position \<longrightarrow>
            place_fence b direction position = Some (PyBool False, b)"
      by (rule impI) (rule 1)
  qed (rule impI, elim conjE, rule 2)
qed

lemma place_fence_outcome_examples:
  "board_inv near_goals \<and> in_grid (1, 1) \<and> fence_link near_goals ''v'' (1, 1) = Some (0, 1) \<and>
   has_route (fenced near_goals ''v'' (1, 1)) 1 \<and> has_route (fenced near_goals ''v'' (1, 1)) 2 \<and>
   place_fence near_goals ''v'' (1, 1) = Some (PyBool True, fenced near_goals ''v'' (1, 1)) \<and>
   fence_link near_goals ''v'' (0, 1) = None \<and>
   place_fence near_goals ''v'' (0, 1) = Some (PyBool False, near_goals) \<and>
   place_fence near_goals ''x'' (1, 1) = Some (PyBool False, near_goals) \<and>
   board_inv goal_cell_walled \<and> \<not> has_route (fenced goal_cell_walled ''h'' (3, 8)) 1 \<and>
   place_fence goal_cell_walled ''h'' (3, 8)
     = Some (PyStr ''breaks the fair play rule'', goal_cell_walled)"
proof -
  let ?f = "fenced near_goals ''v'' (1, 1)"
  have g: "in_grid (1, 1)" "in_grid (0, 1)" "in_grid (4, 7)" "in_grid (4, 1)" "in_grid (3, 8)"
    by (simp_all add: in_grid_def)
  have s: "grid_shape near_goals" using near_goals_inv by (simp add: board_inv_def)
  have k: "fence_link near_goals ''v'' (1, 1) = Some (0, 1)"
    "fence_link near_goals ''v'' (0, 1) = None"
    by (simp_all add: fence_link_def near_goals_tile g init_tile_def)
  have t: "tile_at ?f (4, 7) = tile_at near_goals (4, 7)"
    "tile_at ?f (4, 1) = tile_at near_goals (4, 1)"
    using tile_at_fenced[OF s, of "(1, 1)" "''v''"] g by (simp_all add: border_pos_def)
  have c: "current_pos ?f 1 = (4, 7)" "current_pos ?f 2 = (4, 1)"
    by (simp_all add: current_pos_def near_goals_players)
  have "((4, 7), (4, 8)) \<in> linked ?f" "((4, 1), (4, 0)) \<in> linked ?f"
    by (simp_all add: linked_def g t near_goals_tile get_valid_directions_def init_tile_def)
  then have "((4, 7), (4, 8)) \<in> (linked ?f)\<^sup>+" "((4, 1), (4, 0)) \<in> (linked ?f)\<^sup>+"
    by (simp_all add: r_into_trancl)
  then have r: "has_route ?f 1" "has_route ?f 2"
    unfolding has_route_def c goal_row_def by force+
  have n: "\<not> has_route (fenced goal_cell_walled ''h'' (3, 8)) 1"
    using route_nonempty[of goal_cell_sealed "(3, 8)" 8] goal_cell_sealed_inv
    unfolding has_route_def goal_cell_sealed_def[symmetric]
    by (simp add: current_pos_def goal_cell_sealed_players goal_row_def sealed_no_links
        board_inv_def g)
  show ?thesis
    using place_fence_outcome[OF near_goals_inv, of "''v''" "(1, 1)"]
      place_fence_outcome[OF near_goals_inv, of "''v''" "(0, 1)"]
      place_fence_outcome[OF near_goals_inv, of "''x''" "(1, 1)"]
      place_fence_outcome[OF goal_cell_walled_inv, of "''h''" "(3, 8)"]
      near_goals_inv goal_cell_walled_inv g k r n seal_link
    by simp
qed

text \<open>
  Claim C2. Every part of the claim holds of the code (\<open>place_fence_outcome\<close>) but the
  condition of the fair-play rejection: \<open>place_fence\<close> also returns
  \<open>"breaks the fair play rule"\<close> for a fence that leaves both players a route to their goal
  row, against the comment at the call (the check is there to make sure that the fence does
  not prevent a player from winning). The cause lies in the fair-play search, which does not
  test the row of the cell the pawn stands on. On the reachable board
  \<open>goal_cell_walled\<close>, closing the north side of \<open>(3, 8)\<close> leaves player 1 in its goal row
  (a route of length zero) and leaves player 2 a route along column 4 to row 0, and
  \<open>place_fence\<close> returns \<open>"breaks the fair play rule"\<close> with the board unchanged.
\<close>

theorem place_fence_goal_cell_refused:
  "reachable goal_cell_walled \<and>
   place_fence goal_cell_walled ''h'' (3, 8)
     = Some (PyStr ''breaks the fair play rule'', goal_cell_walled) \<and>
   current_pos (fenced goal_cell_walled ''h'' (3, 8)) 1 = (3, 8) \<and>
   ((3, 8), (3, 8)) \<in> (linked (fenced goal_cell_walled ''h'' (3, 8)))\<^sup>* \<and>
   snd ((3, 8) :: coord) = goal_row 1 \<and>
   current_pos (fenced goal_cell_walled ''h'' (3, 8)) 2 = (4, 8) \<and>
   ((4, 8), (4, 0)) \<in> (linked (fenced goal_cell_walled ''h'' (3, 8)))\<^sup>* \<and>
   snd ((4, 0) :: coord) = goal_row 2"
proof -
  have g: "in_grid (3, 8)" by (simp add: in_grid_def)
  have n: "\<not> has_route (fenced goal_cell_walled ''h'' (3, 8)) 1"
    using route_nonempty[of goal_cell_sealed "(3, 8)" 8] goal_cell_sealed_inv
    unfolding has_route_def goal_cell_sealed_def[symmetric]
    by (simp add: current_pos_def goal_cell_sealed_players goal_row_def sealed_no_links
        board_inv_def g)
  have p: "place_fence goal_cell_walled ''h'' (3, 8)
     = Some (PyStr ''breaks the fair play rule'', goal_cell_walled)"
    using place_fence_routes[OF goal_cell_walled_inv _ g, of "''h''"] n seal_link by simp
  have c: "current_pos goal_cell_sealed 1 = (3, 8)" "current_pos goal_cell_sealed 2 = (4, 8)"
    by (simp_all add: current_pos_def goal_cell_sealed_players)
  have r: "((4, 8), (4, 0)) \<in> (linked goal_cell_sealed)\<^sup>*"
    using sealed_route_2 by (rule trancl_into_rtrancl)
  show ?thesis
    unfolding goal_cell_sealed_def[symmetric]
    using p c r goal_cell_walled_reachable by (simp add: goal_row_def)
qed

theorem place_fence_goal_cell_refused_witness:
  "in_grid (3, 8) \<and>
   place_fence goal_cell_walled ''h'' (3, 8)
     = Some (PyStr ''breaks the fair play rule'', goal_cell_walled) \<and>
   snd (current_pos (fenced goal_cell_walled ''h'' (3, 8)) 1) = goal_row 1"
  using place_fence_goal_cell_refused by (simp add: in_grid_def)

text \<open>
  Claim C3. On every board that satisfies the board invariant both operations return, and:
  a \<open>place_fence\<close> call that does not return \<open>True\<close> (invalid direction, position out of
  range, absent link, or fair-play violation) returns the board it was given, identical in
  every link, every occupant and both stored coordinates; a \<open>move_pawn\<close> call that returns
  \<open>False\<close> returns the board it was given; and a \<open>move_pawn\<close> call that returns \<open>True\<close>
  has cleared the marker of the vacated cell, set the marker of the target cell and stored
  the target as the player's coordinate, all three together, with every other cell, every
  link, the shape of the grid and the other player's coordinate unchanged.
\<close>

theorem no_partial_mutation:
  assumes "board_inv b"
  shows "place_fence b direction position \<noteq> None \<and> move_pawn b player new_pos \<noteq> None
         \<and> (place_fence b direction position = Some (out, b') \<and> out \<noteq> PyBool True \<longrightarrow> b' = b)
         \<and> (move_pawn b player new_pos = Some (False, b'') \<longrightarrow> b'' = b)
         \<and> (move_pawn b player new_pos = Some (True, b'') \<longrightarrow>
              in_grid new_pos \<and> new_pos \<noteq> current_pos b player
              \<and> tile_at b'' (current_pos b player)
                  = (tile_at b (current_pos b player))\<lparr>has_pawn := 0\<rparr>
              \<and> tile_at b'' new_pos = (tile_at b new_pos)\<lparr>has_pawn := player\<rparr>
              \<and> current_pos b'' player = new_pos
              \<and> (player = 1 \<longrightarrow> player_2 b'' = player_2 b)
              \<and> (player \<noteq> 1 \<longrightarrow> player_1 b'' = player_1 b)
              \<and> grid_shape b''
              \<and> (\<forall>q. in_grid q \<and> q \<noteq> new_pos \<and> q \<noteq> current_pos b player \<longrightarrow>
                    tile_at b'' q = tile_at b q))"
proof -
  have g: "grid_shape b" and p: "in_grid (player_1 b)" "in_grid (player_2 b)"
    using assms by (simp_all add: board_inv_def)
  have c: "in_grid (current_pos b player)" using p by (simp add: current_pos_def)
  have 1: "place_fence b direction position \<noteq> None"
  proof (cases "(direction = ''v'' \<or> direction = ''h'') \<and> in_grid position")
    case False
    then have "place_fence b direction position = Some (PyBool False, b)"
      by (intro place_fence_rejected) blast
    then show ?thesis by simp
  next
    case True
    then show ?thesis
      using place_fence_inv[OF assms, of direction position]
      by (cases "fence_link b direction position = None") auto
  qed
  have 2: "move_pawn b player new_pos \<noteq> None"
    unfolding move_pawn_inv[OF assms] by simp
  have 3: "b' = b" if "place_fence b direction position = Some (out, b') \<and> out \<noteq> PyBool True"
    using place_fence_cases[OF assms, of direction position out b'] that by blast
  have 4: "b'' = b" if "move_pawn b player new_pos = Some (False, b'')"
    using move_pawn_cases[OF assms that] by blast
  have 5: "in_grid new_pos \<and> new_pos \<noteq> current_pos b player
              \<and> tile_at b'' (current_pos b player)
                  = (tile_at b (current_pos b player))\<lparr>has_pawn := 0\<rparr>
              \<and> tile_at b'' new_pos = (tile_at b new_pos)\<lparr>has_pawn := player\<rparr>
              \<and> current_pos b'' player = new_pos
              \<and> (player = 1 \<longrightarrow> player_2 b'' = player_2 b)
              \<and> (player \<noteq> 1 \<longrightarrow> player_1 b'' = player_1 b)
              \<and> grid_shape b''
              \<and> (\<forall>q. in_grid q \<and> q \<noteq> new_pos \<and> q \<noteq> current_pos b player \<longrightarrow>
                    tile_at b'' q = tile_at b q)"
    if m: "move_pawn b player new_pos = Some (True, b'')"
  proof -
    from move_pawn_cases[OF assms m]
    have e: "b'' = moved b player new_pos" and ok: "move_ok b player new_pos" by blast+
    note n = move_ok_in_grid[OF ok] and d = move_ok_distinct[OF ok]
    note t = tile_at_moved[OF g c n]
    show ?thesis
      unfolding e using n d c g
      by (simp add: t moved_players current_pos_def)
  qed
  show ?thesis
  proof (intro conjI impI)
    show "place_fence b direction position \<noteq> None" by (rule 1)
    show "move_pawn b player new_pos \<noteq> None" by (rule 2)
    show "b' = b" if "place_fence b direction position = Some (out, b') \<and> out \<noteq> PyBool True"
      using that by (rule 3)
    show "b'' = b" if "move_pawn b player new_pos = Some (False, b'')"
      using that by (rule 4)
  qed (use 5 in blast)+
qed

theorem no_partial_mutation_witness:
  "board_inv goal_cell_walled \<and>
   place_fence goal_cell_walled ''h'' (3, 8)
     = Some (PyStr ''breaks the fair play rule'', goal_cell_walled) \<and>
   place_fence goal_cell_walled ''v'' (3, 8) = Some (PyBool False, goal_cell_walled) \<and>
   board_inv Board_init \<and>
   move_pawn Board_init 1 (4, 1) = Some (True, moved Board_init 1 (4, 1)) \<and>
   current_pos Board_init 1 = (4, 0) \<and>
   tile_at (moved Board_init 1 (4, 1)) (4, 0) = (tile_at Board_init (4, 0))\<lparr>has_pawn := 0\<rparr> \<and>
   tile_at (moved Board_init 1 (4, 1)) (4, 1) = (tile_at Board_init (4, 1))\<lparr>has_pawn := 1\<rparr> \<and>
   current_pos (moved Board_init 1 (4, 1)) 1 = (4, 1) \<and>
   move_pawn Board_init 1 (4, 2) = Some (False, Board_init)"
proof -
  have g: "in_grid (3, 8)" "in_grid (4, 2)" "in_grid (4, 0)" "in_grid (4, 1)"
    by (simp_all add: in_grid_def)
  have n: "\<not> has_route (fenced goal_cell_walled ''h'' (3, 8)) 1"
    using route_nonempty[of goal_cell_sealed "(3, 8)" 8] goal_cell_sealed_inv
    unfolding has_route_def goal_cell_sealed_def[symmetric]
    by (simp add: current_pos_def goal_cell_sealed_players goal_row_def sealed_no_links
        board_inv_def g)
  have p: "place_fence goal_cell_walled ''h'' (3, 8)
     = Some (PyStr ''breaks the fair play rule'', goal_cell_walled)"
    using place_fence_routes[OF goal_cell_walled_inv _ g(1), of "''h''"] n seal_link
      no_partial_mutation[OF goal_cell_walled_inv, of "''h''" "(3, 8)" 1 "(4, 1)"
        "PyStr ''breaks the fair play rule''" goal_cell_walled]
    by simp
  have "fence_link goal_cell_walled ''v'' (3, 8) = None"
    by (simp add: fence_link_def goal_cell_walled_tile wall_west_tile g)
  then have q: "place_fence goal_cell_walled ''v'' (3, 8) = Some (PyBool False, goal_cell_walled)"
    using place_fence_inv(1)[OF goal_cell_walled_inv _ g(1), of "''v''"] by simp
  have c: "current_pos Board_init 1 = (4, 0)"
    by (simp add: current_pos_def Board_init_players)
  have "\<not> move_ok Board_init 1 (4, 2)"
    by (simp add: move_ok_def c can_move_regularly_def jump_cond_def diag_cond_def
        Board_init_tile g init_tile_def get_direction_def)
  then have r: "move_pawn Board_init 1 (4, 2) = Some (False, Board_init)"
    using move_pawn_inv[OF Board_init_inv, of 1 "(4, 2)"] by simp
  show ?thesis
    using no_partial_mutation[OF Board_init_inv, of "''v''" "(3, 8)" 1 "(4, 1)"
        "PyBool False" Board_init "moved Board_init 1 (4, 1)"]
      first_move p q r c goal_cell_walled_inv Board_init_inv
    by simp
qed

text \<open>
  Claim C10. When \<open>place_fence\<close> returns \<open>True\<close> on a board that satisfies the board
  invariant, exactly two link fields have changed, both from a reference to \<^verbatim>\<open>None\<close>: the
  west link of the target Tile and the east link of its west neighbour (direction \<open>"v"\<close>),
  or the north link of the target Tile and the south link of its north neighbour (direction
  \<open>"h"\<close>). Every other field of these two Tiles, every other Tile, the shape of the grid
  and both stored player coordinates are unchanged.
\<close>

theorem placed_fence_frame:
  assumes "board_inv b" and "place_fence b direction position = Some (PyBool True, b')"
  shows "(direction = ''v'' \<or> direction = ''h'') \<and> in_grid position
         \<and> in_grid (border_pos direction position)
         \<and> player_1 b' = player_1 b \<and> player_2 b' = player_2 b \<and> grid_shape b'
         \<and> (direction = ''v'' \<longrightarrow>
              west (tile_at b position) = Some (border_pos direction position)
              \<and> east (tile_at b (border_pos direction position)) = Some position
              \<and> tile_at b' position = (tile_at b position)\<lparr>west := None\<rparr>
              \<and> tile_at b' (border_pos direction position)
                  = (tile_at b (border_pos direction position))\<lparr>east := None\<rparr>)
         \<and> (direction = ''h'' \<longrightarrow>
              north (tile_at b position) = Some (border_pos direction position)
              \<and> south (tile_at b (border_pos direction position)) = Some position
              \<and> tile_at b' position = (tile_at b position)\<lparr>north := None\<rparr>
              \<and> tile_at b' (border_pos direction position)
                  = (tile_at b (border_pos direction position))\<lparr>south := None\<rparr>)
         \<and> (\<forall>q. in_grid q \<and> q \<noteq> position \<and> q \<noteq> border_pos direction position \<longrightarrow>
               tile_at b' q = tile_at b q)"
proof -
  have g: "grid_shape b" and l: "links_ok b" using assms(1) by (simp_all add: board_inv_def)
  from place_fence_cases[OF assms]
  have e: "b' = fenced b direction position" and v: "direction = ''v'' \<or> direction = ''h''"
    and p: "in_grid position" and k: "fence_link b direction position \<noteq> None"
    by simp_all
  from k obtain nb where nb: "fence_link b direction position = Some nb" by blast
  note B = fence_link_border[OF l p nb]
  have nbg: "in_grid (border_pos direction position)" using B(1,2) by simp
  have ne: "border_pos direction position \<noteq> position" using B(1,3) by simp
  note t = tile_at_fenced[OF g p nbg]
  have 1: "west (tile_at b position) = Some (border_pos direction position)
              \<and> east (tile_at b (border_pos direction position)) = Some position
              \<and> tile_at b' position = (tile_at b position)\<lparr>west := None\<rparr>
              \<and> tile_at b' (border_pos direction position)
                  = (tile_at b (border_pos direction position))\<lparr>east := None\<rparr>"
    if d: "direction = ''v''"
    using nb B(1) B(4)[OF d] ne[symmetric] p nbg t[OF p] t[OF nbg]
    unfolding e d by (simp add: fence_link_def)
  have h: "direction \<noteq> ''v''" if "direction = ''h''" using that by simp
  have 2: "north (tile_at b position) = Some (border_pos direction position)
              \<and> south (tile_at b (border_pos direction position)) = Some position
              \<and> tile_at b' position = (tile_at b position)\<lparr>north := None\<rparr>
              \<and> tile_at b' (border_pos direction position)
                  = (tile_at b (border_pos direction position))\<lparr>south := None\<rparr>"
    if d: "direction = ''h''"
    using nb B(1) B(5)[OF h[OF d]] ne[symmetric] p nbg t[OF p] t[OF nbg]
    unfolding e d by (simp add: fence_link_def)
  have 3: "\<forall>q. in_grid q \<and> q \<noteq> position \<and> q \<noteq> border_pos direction position \<longrightarrow>
               tile_at b' q = tile_at b q"
    unfolding e by (simp add: t)
  from v p nbg g 1 2 3 show ?thesis unfolding e by simp
qed

theorem placed_fence_frame_witness:
  "board_inv near_goals \<and>
   place_fence near_goals ''v'' (1, 1) = Some (PyBool True, fenced near_goals ''v'' (1, 1)) \<and>
   border_pos ''v'' (1, 1) = (0, 1) \<and>
   west (tile_at near_goals (1, 1)) = Some (0, 1) \<and> east (tile_at near_goals (0, 1)) = Some (1, 1) \<and>
   tile_at (fenced near_goals ''v'' (1, 1)) (1, 1) = (tile_at near_goals (1, 1))\<lparr>west := None\<rparr> \<and>
   tile_at (fenced near_goals ''v'' (1, 1)) (0, 1) = (tile_at near_goals (0, 1))\<lparr>east := None\<rparr> \<and>
   player_1 (fenced near_goals ''v'' (1, 1)) = player_1 near_goals"
proof -
  let ?f = "fenced near_goals ''v'' (1, 1)"
  have g: "in_grid (1, 1)" "in_grid (0, 1)" "in_grid (4, 7)" "in_grid (4, 1)"
    by (simp_all add: in_grid_def)
  have s: "grid_shape near_goals" using near_goals_inv by (simp add: board_inv_def)
  have k: "fence_link near_goals ''v'' (1, 1) \<noteq> None"
    by (simp add: fence_link_def near_goals_tile g init_tile_def)
  have t: "tile_at ?f (4, 7) = tile_at near_goals (4, 7)"
    "tile_at ?f (4, 1) = tile_at near_goals (4, 1)"
    using tile_at_fenced[OF s, of "(1, 1)" "''v''"] g by (simp_all add: border_pos_def)
  have c: "current_pos ?f 1 = (4, 7)" "current_pos ?f 2 = (4, 1)"
    by (simp_all add: current_pos_def near_goals_players)
  have "((4, 7), (4, 8)) \<in> linked ?f" "((4, 1), (4, 0)) \<in> linked ?f"
    by (simp_all add: linked_def g t near_goals_tile get_valid_directions_def init_tile_def)
  then have "((4, 7), (4, 8)) \<in> (linked ?f)\<^sup>+" "((4, 1), (4, 0)) \<in> (linked ?f)\<^sup>+"
    by (simp_all add: r_into_trancl)
  then have r: "has_route ?f 1" "has_route ?f 2"
    unfolding has_route_def c goal_row_def by force+
  have p: "place_fence near_goals ''v'' (1, 1) = Some (PyBool True, ?f)"
    using place_fence_routes[OF near_goals_inv _ g(1) k] r by simp
  have b: "border_pos ''v'' (1, 1) = (0, 1)" by (simp add: border_pos_def)
  show ?thesis
    using placed_fence_frame[OF near_goals_inv p] p near_goals_inv unfolding b by simp
qed

end
